theory Spec2Isabelle
  imports Complex_Main "HOL-Library.Word"
begin

unbundle bit_operations_syntax

section \<open>Data model of \<^verbatim>\<open>sdf.h\<close>\<close>

text \<open>
  \<^verbatim>\<open>Uint64\<close> is \<^verbatim>\<open>unsigned long long\<close>, \<^verbatim>\<open>uint32_t\<close> a 32-bit word. The components of
  \<^verbatim>\<open>glm::ivec3\<close> and \<^verbatim>\<open>glm::ivec4\<close> are C \<^verbatim>\<open>int\<close>s; they are modelled as mathematical
  integers, and the two conversions between \<^verbatim>\<open>int\<close> and \<^verbatim>\<open>Uint64\<close> that the Morton codec
  performs are written out (\<open>word_of_int\<close> towards \<^verbatim>\<open>Uint64\<close>, truncation to 32 bits read
  as two's complement back). \<^verbatim>\<open>float\<close> is modelled as \<open>real\<close>.
\<close>

type_synonym Uint64 = "64 word"
type_synonym uint32 = "32 word"
type_synonym ivec3 = "int \<times> int \<times> int"
type_synonym ivec4 = "int \<times> int \<times> int \<times> int"
type_synonym vec3 = "real \<times> real \<times> real"

definition kOpen :: Uint64 where
  "kOpen = - 1"

text \<open>Component access \<^verbatim>\<open>v[i]\<close>; every call site of the source uses an index in range.\<close>

fun ivec3_at :: "ivec3 \<Rightarrow> nat \<Rightarrow> int" where
  "ivec3_at (a, b, c) i = (if i = 0 then a else if i = 1 then b else c)"

fun ivec4_at :: "ivec4 \<Rightarrow> nat \<Rightarrow> int" where
  "ivec4_at (a, b, c, d) i = (if i = 0 then a else if i = 1 then b else if i = 2 then c else d)"

fun ivec4_set :: "ivec4 \<Rightarrow> nat \<Rightarrow> int \<Rightarrow> ivec4" where
  "ivec4_set (a, b, c, d) i v =
     (if i = 0 then (v, b, c, d) else if i = 1 then (a, v, c, d)
      else if i = 2 then (a, b, v, d) else (a, b, c, v))"

definition Next3 :: "nat \<Rightarrow> nat" where
  "Next3 i = nat (ivec3_at (1, 2, 0) i)"

definition Prev3 :: "nat \<Rightarrow> nat" where
  "Prev3 i = nat (ivec3_at (2, 0, 1) i)"

definition tetTri0 :: "ivec3 list" where
  "tetTri0 = [(-1, -1, -1), (0, 3, 4), (0, 1, 5), (1, 5, 3), (1, 4, 2), (1, 0, 3), (2, 5, 0),
              (5, 3, 2), (2, 3, 5), (0, 5, 2), (3, 0, 1), (2, 4, 1), (3, 5, 1), (5, 1, 0),
              (4, 3, 0), (-1, -1, -1)]"

definition TetTri0 :: "nat \<Rightarrow> ivec3" where
  "TetTri0 i = tetTri0 ! i"

definition tetTri1 :: "ivec3 list" where
  "tetTri1 = [(-1, -1, -1), (-1, -1, -1), (-1, -1, -1), (3, 4, 1), (-1, -1, -1), (3, 2, 1),
              (0, 4, 2), (-1, -1, -1), (-1, -1, -1), (2, 4, 0), (1, 2, 3), (-1, -1, -1),
              (1, 4, 3), (-1, -1, -1), (-1, -1, -1), (-1, -1, -1)]"

definition TetTri1 :: "nat \<Rightarrow> ivec3" where
  "TetTri1 i = tetTri1 ! i"

definition neighbors :: "ivec4 list" where
  "neighbors = [(0, 0, 0, 1), (1, 0, 0, 0), (0, 1, 0, 0), (0, 0, 1, 0),
                (-1, 0, 0, 1), (0, -1, 0, 1), (0, 0, -1, 1)]"

definition Neighbors :: "nat \<Rightarrow> ivec4" where
  "Neighbors i = neighbors ! i"

subsection \<open>Morton codec\<close>

definition SpreadBits3 :: "Uint64 \<Rightarrow> Uint64" where
  "SpreadBits3 v0 =
     (let v = v0 AND 0x1fffff;
          v = (v OR push_bit 32 v) AND 0x1f00000000ffff;
          v = (v OR push_bit 16 v) AND 0x1f0000ff0000ff;
          v = (v OR push_bit 8 v) AND 0x100f00f00f00f00f;
          v = (v OR push_bit 4 v) AND 0x10c30c30c30c30c3;
          v = (v OR push_bit 2 v) AND 0x1249249249249249
      in v)"

definition SqueezeBits3 :: "Uint64 \<Rightarrow> Uint64" where
  "SqueezeBits3 v0 =
     (let v = v0 AND 0x1249249249249249;
          v = (v XOR drop_bit 2 v) AND 0x10c30c30c30c30c3;
          v = (v XOR drop_bit 4 v) AND 0x100f00f00f00f00f;
          v = (v XOR drop_bit 8 v) AND 0x1f0000ff0000ff;
          v = (v XOR drop_bit 16 v) AND 0x1f00000000ffff;
          v = (v XOR drop_bit 32 v) AND 0x1fffff
      in v)"

text \<open>The implicit conversions \<^verbatim>\<open>int\<close> to \<^verbatim>\<open>Uint64\<close> and \<^verbatim>\<open>Uint64\<close> to \<^verbatim>\<open>int\<close>.\<close>

definition to_Uint64 :: "int \<Rightarrow> Uint64" where
  "to_Uint64 i = word_of_int i"

definition to_int :: "Uint64 \<Rightarrow> int" where
  "to_int v = sint (ucast v :: uint32)"

fun MortonCode :: "ivec4 \<Rightarrow> Uint64" where
  "MortonCode (x, y, z, w) =
     to_Uint64 w OR push_bit 1 (SpreadBits3 (to_Uint64 x)) OR
     push_bit 2 (SpreadBits3 (to_Uint64 y)) OR push_bit 3 (SpreadBits3 (to_Uint64 z))"

definition DecodeMorton :: "Uint64 \<Rightarrow> ivec4" where
  "DecodeMorton code =
     (to_int (SqueezeBits3 (drop_bit 1 code)),
      to_int (SqueezeBits3 (drop_bit 2 code)),
      to_int (SqueezeBits3 (drop_bit 3 code)),
      to_int (code AND 0x1))"

subsection \<open>Grid vertices and the hash table\<close>

text \<open>
  \<^verbatim>\<open>struct GridVert\<close>. The field \<^verbatim>\<open>distance\<close> is a \<^verbatim>\<open>float\<close> initialised to \<^verbatim>\<open>NAN\<close>: it is
  \<open>None\<close> for \<^verbatim>\<open>NAN\<close> and \<open>Some d\<close> for a number. The comparison \<^verbatim>\<open>distance > 0\<close> is false on
  \<^verbatim>\<open>NAN\<close>.
\<close>

record GridVert =
  key :: Uint64
  distance :: "real option"
  edgeVerts :: "int list"

definition GridVert_default :: GridVert where
  "GridVert_default = \<lparr>key = kOpen, distance = None, edgeVerts = [-1, -1, -1, -1, -1, -1, -1]\<rparr>"

definition Inside :: "GridVert \<Rightarrow> int" where
  "Inside v = (case distance v of None \<Rightarrow> -1 | Some d \<Rightarrow> if d > 0 then 1 else -1)"

definition NeighborInside :: "GridVert \<Rightarrow> nat \<Rightarrow> int" where
  "NeighborInside v i = Inside v * (if edgeVerts v ! i < 0 then 1 else -1)"

text \<open>
  \<^verbatim>\<open>class HashTableD\<close>: the probe step, the slots and the occupancy counter \<^verbatim>\<open>used_[0]\<close>.
  \<^verbatim>\<open>Size()\<close> is an \<^verbatim>\<open>int\<close>; in \<^verbatim>\<open>Full\<close> and in the masks it is converted to the unsigned type
  of the other operand.
\<close>

record HashTableD =
  step :: uint32
  table :: "GridVert list"
  used :: uint32

datatype error = OutOfBounds | NonTermination | NegativeCoordinate | IntOverflow | InvalidConversion

definition Size :: "HashTableD \<Rightarrow> int" where
  "Size h = int (length (table h))"

definition Full :: "HashTableD \<Rightarrow> bool" where
  "Full h = (used h * 2 > word_of_int (Size h))"

text \<open>
  The probe loops of \<^verbatim>\<open>Insert\<close> and \<^verbatim>\<open>operator[]\<close> are \<^verbatim>\<open>while (1)\<close> loops: a loop that
  never returns has the value \<open>None\<close>, and so has a slot access outside the table (which
  only an empty table allows). Executed by one thread, \<^verbatim>\<open>AtomicCAS(key, kOpen, vert.key)\<close>
  returns the slot's key and stores \<^verbatim>\<open>vert.key\<close> if that key was \<^verbatim>\<open>kOpen\<close>.
\<close>

partial_function (option) Insert_loop :: "HashTableD \<Rightarrow> GridVert \<Rightarrow> uint32 \<Rightarrow> HashTableD option" where
  "Insert_loop h vert idx =
     (if length (table h) \<le> unat idx then None
      else let found = key (table h ! unat idx) in
        if found = kOpen
        then Some (h\<lparr>used := used h + 1, table := (table h)[unat idx := vert]\<rparr>)
        else if found = key vert then Some h
        else Insert_loop h vert ((idx + step h) AND word_of_int (Size h - 1)))"

definition Insert :: "HashTableD \<Rightarrow> GridVert \<Rightarrow> HashTableD option" where
  "Insert h vert = Insert_loop h vert (ucast (key vert AND to_Uint64 (Size h - 1)))"

partial_function (option) Lookup_loop :: "HashTableD \<Rightarrow> Uint64 \<Rightarrow> uint32 \<Rightarrow> GridVert option" where
  "Lookup_loop h k idx =
     (if length (table h) \<le> unat idx then None
      else let found = table h ! unat idx in
        if key found = k \<or> key found = kOpen then Some found
        else Lookup_loop h k ((idx + step h) AND word_of_int (Size h - 1)))"

text \<open>\<^verbatim>\<open>HashTableD::operator[]\<close>.\<close>

definition Lookup :: "HashTableD \<Rightarrow> Uint64 \<Rightarrow> GridVert option" where
  "Lookup h k = Lookup_loop h k (ucast (k AND to_Uint64 (Size h - 1)))"

definition At :: "HashTableD \<Rightarrow> nat \<Rightarrow> GridVert" where
  "At h idx = table h ! idx"

text \<open>
  \<^verbatim>\<open>class HashTable\<close>: the constructor allocates \<^verbatim>\<open>1 << (int)ceil(log2(size))\<close> default
  slots and a zero counter. For a size of at least 1 the exponent is the bit length of the
  size minus one.
\<close>

fun bit_length :: "nat \<Rightarrow> nat" where
  "bit_length n = (if n = 0 then 0 else Suc (bit_length (n div 2)))"

declare bit_length.simps [simp del]

definition HashTable :: "nat \<Rightarrow> uint32 \<Rightarrow> HashTableD" where
  "HashTable sz st =
     \<lparr>step = st, table = replicate (2 ^ bit_length (sz - 1)) GridVert_default, used = 0\<rparr>"

subsection \<open>The vertex pass\<close>

text \<open>The \<^verbatim>\<open>glm\<close> vector helpers that the passes use.\<close>

fun any3 :: "bool \<times> bool \<times> bool \<Rightarrow> bool" where
  "any3 (a, b, c) = (a \<or> b \<or> c)"

fun lessThanEqual :: "ivec3 \<Rightarrow> ivec3 \<Rightarrow> bool \<times> bool \<times> bool" where
  "lessThanEqual (a, b, c) (d, e, f) = (a \<le> d, b \<le> e, c \<le> f)"

fun greaterThanEqual :: "ivec3 \<Rightarrow> ivec3 \<Rightarrow> bool \<times> bool \<times> bool" where
  "greaterThanEqual (a, b, c) (d, e, f) = (a \<ge> d, b \<ge> e, c \<ge> f)"

fun greaterThan :: "ivec3 \<Rightarrow> ivec3 \<Rightarrow> bool \<times> bool \<times> bool" where
  "greaterThan (a, b, c) (d, e, f) = (a > d, b > e, c > f)"

fun ivec3_of :: "ivec4 \<Rightarrow> ivec3" where
  "ivec3_of (a, b, c, d) = (a, b, c)"

fun ivec3_plus :: "ivec3 \<Rightarrow> int \<Rightarrow> ivec3" where
  "ivec3_plus (a, b, c) k = (a + k, b + k, c + k)"

fun ivec4_add :: "ivec4 \<Rightarrow> ivec4 \<Rightarrow> ivec4" where
  "ivec4_add (a, b, c, d) (e, f, g, h) = (a + e, b + f, c + g, d + h)"

fun ivec4_plus :: "ivec4 \<Rightarrow> int \<Rightarrow> ivec4" where
  "ivec4_plus (a, b, c, d) k = (a + k, b + k, c + k, d + k)"

definition glm_min :: "real \<Rightarrow> real \<Rightarrow> real" where
  "glm_min a b = (if b < a then b else a)"

fun vec3_scale :: "real \<Rightarrow> vec3 \<Rightarrow> vec3" where
  "vec3_scale k (a, b, c) = (k * a, k * b, k * c)"

fun vec3_sub :: "vec3 \<Rightarrow> vec3 \<Rightarrow> vec3" where
  "vec3_sub (a, b, c) (d, e, f) = (a - d, b - e, c - f)"

fun vec3_div :: "vec3 \<Rightarrow> real \<Rightarrow> vec3" where
  "vec3_div (a, b, c) k = (a / k, b / k, c / k)"

text \<open>
  \<^verbatim>\<open>struct ComputeVerts\<close>: the constant members are the record \<open>ComputeVerts\<close>, the memory
  that its pointers reach (the vertex buffer, the vertex counter and the hash table) is the
  record \<open>VertState\<close>.
\<close>

record ComputeVerts =
  sdf :: "vec3 \<Rightarrow> real"
  origin :: vec3
  gridSize :: ivec3
  spacing :: vec3
  level :: real

record VertState =
  vertPos :: "vec3 list"
  vertIndex :: int
  gridVerts :: HashTableD

definition Position :: "ComputeVerts \<Rightarrow> ivec4 \<Rightarrow> vec3" where
  "Position p gridIndex =
     (case (origin p, spacing p, gridIndex) of ((ox, oy, oz), (sx, sy, sz), (x, y, z, w)) \<Rightarrow>
        let c = (if w = 1 then 0 else - (1 / 2))
        in (ox + sx * (real_of_int x + c), oy + sy * (real_of_int y + c),
            oz + sz * (real_of_int z + c)))"

definition BoundedSDF :: "ComputeVerts \<Rightarrow> ivec4 \<Rightarrow> real" where
  "BoundedSDF p gridIndex =
     (let d = sdf p (Position p gridIndex) - level p;
          xyz = ivec3_of gridIndex;
          onLowerBound = any3 (lessThanEqual xyz (0, 0, 0));
          onUpperBound = any3 (greaterThanEqual xyz (gridSize p));
          onHalfBound = (ivec4_at gridIndex 3 = 1 \<and>
                         any3 (greaterThanEqual xyz (ivec3_plus (gridSize p) (- 1))))
      in if onLowerBound \<or> onUpperBound \<or> onHalfBound then glm_min d 0 else d)"

text \<open>The index of the neighbour across owned edge \<open>i\<close>, with \<open>w = 2\<close> normalised.\<close>

definition neighborIndex :: "ivec4 \<Rightarrow> nat \<Rightarrow> ivec4" where
  "neighborIndex gridIndex i =
     (let n = ivec4_add gridIndex (Neighbors i)
      in if ivec4_at n 3 = 2 then ivec4_set (ivec4_plus n 1) 3 0 else n)"

text \<open>
  One iteration of the loop over the seven owned edges. The loop state is \<^verbatim>\<open>keep\<close>, the
  array \<^verbatim>\<open>gridVert.edgeVerts\<close> and the memory; \<open>d\<close> is \<^verbatim>\<open>gridVert.distance\<close>.
  \<^verbatim>\<open>AtomicAdd\<close> returns the counter's old value. A write outside the vertex buffer is the
  error \<open>OutOfBounds\<close>.
\<close>

definition ComputeVerts_edge ::
  "ComputeVerts \<Rightarrow> ivec4 \<Rightarrow> vec3 \<Rightarrow> real \<Rightarrow> nat \<Rightarrow> bool \<times> int list \<times> VertState \<Rightarrow>
   error + bool \<times> int list \<times> VertState" where
  "ComputeVerts_edge p gridIndex position d i s =
     (case s of (keep, ev, st) \<Rightarrow>
        let n = neighborIndex gridIndex i;
            val = BoundedSDF p n
        in if (val > 0) = (d > 0) then Inr s
           else let idx = vertIndex st
             in if 0 \<le> idx \<and> nat idx < length (vertPos st)
                then Inr (True, ev[i := idx],
                       st\<lparr>vertIndex := idx + 1,
                          vertPos := (vertPos st)[nat idx :=
                            vec3_div (vec3_sub (vec3_scale val position)
                                               (vec3_scale d (Position p n))) (val - d)]\<rparr>)
                else Inl OutOfBounds)"

fun for_each :: "('i \<Rightarrow> 's \<Rightarrow> error + 's) \<Rightarrow> 'i list \<Rightarrow> 's \<Rightarrow> error + 's" where
  "for_each body [] s = Inr s"
| "for_each body (i # is) s = (case body i s of Inl e \<Rightarrow> Inl e | Inr s' \<Rightarrow> for_each body is s')"

text \<open>\<^verbatim>\<open>ComputeVerts::operator()\<close>.\<close>

definition ComputeVerts_call :: "ComputeVerts \<Rightarrow> Uint64 \<Rightarrow> VertState \<Rightarrow> error + VertState" where
  "ComputeVerts_call p mortonCode st =
     (if Full (gridVerts st) then Inr st
      else let gridIndex = DecodeMorton mortonCode
        in if any3 (greaterThan (ivec3_of gridIndex) (gridSize p)) then Inr st
           else let position = Position p gridIndex;
                    d = BoundedSDF p gridIndex
             in case for_each (ComputeVerts_edge p gridIndex position d) [0, 1, 2, 3, 4, 5, 6]
                       (False, [-1, -1, -1, -1, -1, -1, -1], st) of
                  Inl e \<Rightarrow> Inl e
                | Inr (keep, ev, st') \<Rightarrow>
                    if keep
                    then (case Insert (gridVerts st')
                                 \<lparr>key = mortonCode, distance = Some d, edgeVerts = ev\<rparr> of
                            None \<Rightarrow> Inl NonTermination
                          | Some h \<Rightarrow> Inr (st'\<lparr>gridVerts := h\<rparr>))
                    else Inr st')"

text \<open>
  The vertex pass \<^verbatim>\<open>for_each_n(policy, countAt(0), maxMorton + 1, ComputeVerts(...))\<close>, run
  sequentially in increasing order of the Morton code. The count \<^verbatim>\<open>maxMorton + 1\<close> is a
  \<^verbatim>\<open>Uint64\<close>.
\<close>

definition vertex_pass :: "ComputeVerts \<Rightarrow> Uint64 \<Rightarrow> VertState \<Rightarrow> error + VertState" where
  "vertex_pass p maxMorton st =
     for_each (ComputeVerts_call p) (map word_of_nat [0..<unat (maxMorton + 1)]) st"

subsection \<open>The triangle pass\<close>

text \<open>
  \<^verbatim>\<open>struct BuildTris\<close>: the triangle buffer and the triangle counter are the record
  \<open>TriState\<close>; the hash table is constant and passed along. A write outside the triangle
  buffer is the error \<open>OutOfBounds\<close>.
\<close>

record TriState =
  triVerts :: "ivec3 list"
  triIndex :: int

definition bindE :: "error + 'a \<Rightarrow> ('a \<Rightarrow> error + 'b) \<Rightarrow> error + 'b" where
  "bindE m f = (case m of Inl e \<Rightarrow> Inl e | Inr a \<Rightarrow> f a)"

definition CreateTri :: "ivec3 \<Rightarrow> int list \<Rightarrow> TriState \<Rightarrow> error + TriState" where
  "CreateTri tri edges st =
     (if ivec3_at tri 0 < 0 then Inr st
      else let idx = triIndex st
        in if 0 \<le> idx \<and> nat idx < length (triVerts st)
           then Inr (st\<lparr>triIndex := idx + 1,
                       triVerts := (triVerts st)[nat idx :=
                         (edges ! nat (ivec3_at tri 0), edges ! nat (ivec3_at tri 1),
                          edges ! nat (ivec3_at tri 2))]\<rparr>)
           else Inl OutOfBounds)"

definition tetMask :: "ivec4 \<Rightarrow> nat" where
  "tetMask tet = (if ivec4_at tet 0 > 0 then 1 else 0) + (if ivec4_at tet 1 > 0 then 2 else 0) +
                 (if ivec4_at tet 2 > 0 then 4 else 0) + (if ivec4_at tet 3 > 0 then 8 else 0)"

definition CreateTris :: "ivec4 \<Rightarrow> int list \<Rightarrow> TriState \<Rightarrow> error + TriState" where
  "CreateTris tet edges st =
     (let i = tetMask tet
      in bindE (CreateTri (TetTri0 i) edges st) (CreateTri (TetTri1 i) edges))"

text \<open>
  A table lookup \<^verbatim>\<open>gridVerts[MortonCode(index)]\<close> of the triangle pass. \<^verbatim>\<open>MortonCode\<close> takes
  unsigned input; a call with a negative component is the error \<open>NegativeCoordinate\<close> of
  the model, so that the absence of such calls is a property of the pass's result.
\<close>

definition gridVerts_at :: "HashTableD \<Rightarrow> ivec4 \<Rightarrow> error + GridVert" where
  "gridVerts_at h index =
     (if ivec4_at index 0 < 0 \<or> ivec4_at index 1 < 0 \<or> ivec4_at index 2 < 0 \<or>
         ivec4_at index 3 < 0
      then Inl NegativeCoordinate
      else case Lookup h (MortonCode index) of None \<Rightarrow> Inl NonTermination | Some v \<Rightarrow> Inr v)"

text \<open>The first \<^verbatim>\<open>nextVert\<close> of an axis: \<^verbatim>\<open>leadIndex\<close> with coordinate \<^verbatim>\<open>Prev3(i)\<close> decremented.\<close>

definition nextVert_lead :: "HashTableD \<Rightarrow> ivec4 \<Rightarrow> nat \<Rightarrow> error + GridVert" where
  "nextVert_lead h leadIndex i =
     (let thisIndex = ivec4_set leadIndex (Prev3 i) (ivec4_at leadIndex (Prev3 i) - 1)
      in if ivec4_at thisIndex (Prev3 i) < 0 then Inr GridVert_default
         else gridVerts_at h thisIndex)"

text \<open>The body of the loop over the axes \<open>i = 0, 1, 2\<close>; its state is \<^verbatim>\<open>thisVert\<close>, \<^verbatim>\<open>tet\<close> and
  the memory.\<close>

definition BuildTris_axis ::
  "HashTableD \<Rightarrow> GridVert \<Rightarrow> ivec4 \<Rightarrow> ivec4 \<Rightarrow> nat \<Rightarrow> GridVert \<times> ivec4 \<times> TriState \<Rightarrow>
   error + GridVert \<times> ivec4 \<times> TriState" where
  "BuildTris_axis h base baseIndex leadIndex i s =
     (case s of (thisVert, tet, st) \<Rightarrow>
        bindE (nextVert_lead h leadIndex i) (\<lambda>nextVert.
          let tet = ivec4_set tet 3 (NeighborInside base (Prev3 i + 4));
              edges1 = [edgeVerts base ! 0, edgeVerts base ! (i + 1),
                        edgeVerts nextVert ! (Next3 i + 4), edgeVerts nextVert ! (Prev3 i + 1),
                        edgeVerts thisVert ! (i + 4), edgeVerts base ! (Prev3 i + 4)];
              thisVert = nextVert
          in bindE (CreateTris tet edges1 st) (\<lambda>st.
               let thisIndex = ivec4_set baseIndex (Next3 i) (ivec4_at baseIndex (Next3 i) + 1)
               in bindE (gridVerts_at h thisIndex) (\<lambda>nextVert.
                    let tet = ivec4_set tet 2 (ivec4_at tet 3);
                        tet = ivec4_set tet 3 (NeighborInside base (Next3 i + 1));
                        edges2 = [edgeVerts base ! 0, edges1 ! 5, edgeVerts thisVert ! (i + 4),
                                  edgeVerts nextVert ! (Next3 i + 4), edges1 ! 3,
                                  edgeVerts base ! (Next3 i + 1)];
                        thisVert = nextVert
                    in bindE (CreateTris tet edges2 st) (\<lambda>st.
                         Inr (thisVert, ivec4_set tet 2 (ivec4_at tet 3), st))))))"

definition leadIndex_of :: "ivec4 \<Rightarrow> ivec4" where
  "leadIndex_of baseIndex =
     (if ivec4_at baseIndex 3 = 0 then ivec4_set baseIndex 3 1
      else ivec4_set (ivec4_plus baseIndex 1) 3 0)"

text \<open>\<^verbatim>\<open>BuildTris::operator()\<close>.\<close>

definition BuildTris_call :: "HashTableD \<Rightarrow> nat \<Rightarrow> TriState \<Rightarrow> error + TriState" where
  "BuildTris_call h idx st =
     (let base = At h idx
      in if key base = kOpen then Inr st
         else let baseIndex = DecodeMorton (key base);
                  leadIndex = leadIndex_of baseIndex;
                  tet = (NeighborInside base 0, Inside base, - 2, - 2);
                  thisIndex = ivec4_set baseIndex 0 (ivec4_at baseIndex 0 + 1)
           in bindE (gridVerts_at h thisIndex) (\<lambda>thisVert.
                let tet = ivec4_set tet 2 (NeighborInside base 1)
                in bindE (for_each (BuildTris_axis h base baseIndex leadIndex) [0, 1, 2]
                            (thisVert, tet, st))
                     (\<lambda>(thisVert, tet, st). Inr st)))"

text \<open>The triangle pass \<^verbatim>\<open>for_each_n(policy, countAt(0), gridVerts.Size(), BuildTris(...))\<close>,
  run sequentially.\<close>

definition triangle_pass :: "HashTableD \<Rightarrow> TriState \<Rightarrow> error + TriState" where
  "triangle_pass h st = for_each (BuildTris_call h) [0..<length (table h)] st"

subsection \<open>The driver\<close>

text \<open>
  Modelled from the spec: \<^verbatim>\<open>Box\<close> is declared in \<^verbatim>\<open>public.h\<close>, which is not part of the
  sources at hand; the spec describes it as two points \<^verbatim>\<open>min\<close> and \<^verbatim>\<open>max\<close> of an
  axis-aligned box, and \<^verbatim>\<open>Size()\<close> as the box's size in each axis.
\<close>

record Box =
  box_min :: vec3
  box_max :: vec3

definition Box_Size :: "Box \<Rightarrow> vec3" where
  "Box_Size b = vec3_sub (box_max b) (box_min b)"

text \<open>The conversion of a \<^verbatim>\<open>float\<close> to an integer type truncates towards zero.\<close>

definition float_trunc :: "real \<Rightarrow> int" where
  "float_trunc r = (if 0 \<le> r then \<lfloor>r\<rfloor> else \<lceil>r\<rceil>)"

fun ivec3_of_vec3 :: "vec3 \<Rightarrow> ivec3" where
  "ivec3_of_vec3 (a, b, c) = (float_trunc a, float_trunc b, float_trunc c)"

text \<open>
  The grid size is the one value of the driver that is read off a rounded quotient, so its
  \<^verbatim>\<open>float\<close> arithmetic is written out. A finite \<^verbatim>\<open>float\<close> (IEEE 754 binary32) is the real
  that it denotes. \<open>float_exponent x\<close> is the exponent \<open>e\<close> with \<open>2\<^sup>e \<le> \<bar>x\<bar> < 2\<^sup>e\<^sup>+\<^sup>1\<close>;
  \<open>float_round\<close> rounds a real to the nearest multiple of the unit in its last place (24
  significant bits, exponents from \<open>- 126\<close>), ties to the even multiple. The quotient of two
  floats is the rounded exact quotient; it is \<open>None\<close> when the result is not a finite number (a
  zero divisor, or a magnitude of \<open>2\<^sup>1\<^sup>2\<^sup>8\<close> or more after rounding). The conversion of a float
  to \<^verbatim>\<open>int\<close> truncates and is defined only if the truncated value is an \<^verbatim>\<open>int\<close>.
\<close>

definition round_even :: "real \<Rightarrow> int" where
  "round_even r = (let f = \<lfloor>r\<rfloor>; d = r - of_int f
                   in if d < 1 / 2 then f else if 1 / 2 < d then f + 1
                      else if even f then f else f + 1)"

definition float_exponent :: "real \<Rightarrow> int" where
  "float_exponent x =
     (if 1 \<le> \<bar>x\<bar> then int (bit_length (nat \<lfloor>\<bar>x\<bar>\<rfloor>)) - 1
      else - int (bit_length (nat \<lceil>1 / \<bar>x\<bar>\<rceil> - 1)))"

definition float_round :: "real \<Rightarrow> real" where
  "float_round x =
     (if x = 0 then 0
      else let u = 2 powi (max (float_exponent x) (- 126) - 23)
        in of_int (round_even (x / u)) * u)"

definition float_div :: "real \<Rightarrow> real \<Rightarrow> real option" where
  "float_div a b =
     (if b = 0 then None
      else let q = float_round (a / b) in if \<bar>q\<bar> < 2 ^ 128 then Some q else None)"

definition float_to_int :: "real \<Rightarrow> int option" where
  "float_to_int r =
     (let t = float_trunc r in if - (2 ^ 31) \<le> t \<and> t < 2 ^ 31 then Some t else None)"

fun vec3_of_ivec3 :: "ivec3 \<Rightarrow> vec3" where
  "vec3_of_ivec3 (a, b, c) = (real_of_int a, real_of_int b, real_of_int c)"

fun vec3_divide :: "vec3 \<Rightarrow> vec3 \<Rightarrow> vec3" where
  "vec3_divide (a, b, c) (d, e, f) = (a / d, b / e, c / f)"

fun ivec4_of :: "ivec3 \<Rightarrow> int \<Rightarrow> ivec4" where
  "ivec4_of (a, b, c) d = (a, b, c, d)"

definition glm_min64 :: "Uint64 \<Rightarrow> Uint64 \<Rightarrow> Uint64" where
  "glm_min64 a b = (if b < a then b else a)"

text \<open>
  \<^verbatim>\<open>const glm::ivec3 gridSize(dim / edgeLength)\<close>: in each axis the \<^verbatim>\<open>float\<close> quotient,
  converted to \<^verbatim>\<open>int\<close>; \<open>None\<close> when a quotient or its conversion is undefined.
\<close>

definition LevelSet_gridSize :: "vec3 \<Rightarrow> real \<Rightarrow> ivec3 option" where
  "LevelSet_gridSize boxDim edgeLength =
     (case boxDim of (a, b, c) \<Rightarrow>
        (case (Option.bind (float_div a edgeLength) float_to_int,
               Option.bind (float_div b edgeLength) float_to_int,
               Option.bind (float_div c edgeLength) float_to_int) of
           (Some x, Some y, Some z) \<Rightarrow> Some (x, y, z)
         | _ \<Rightarrow> None))"

definition LevelSet_maxMorton :: "ivec3 \<Rightarrow> Uint64" where
  "LevelSet_maxMorton gs = MortonCode (ivec4_of (ivec3_plus gs 1) 1)"

text \<open>
  \<^verbatim>\<open>int tableSize = glm::min(2 * maxMorton, static_cast<Uint64>(10 * glm::pow(maxMorton, 0.667)))\<close>.
\<close>

definition LevelSet_tableSize :: "Uint64 \<Rightarrow> int" where
  "LevelSet_tableSize maxMorton =
     to_int (glm_min64 (2 * maxMorton)
               (to_Uint64 (float_trunc (10 * (real (unat maxMorton)) powr (667 / 1000)))))"

text \<open>
  The table's fresh state for a requested size, \<^verbatim>\<open>HashTable gridVerts(tableSize)\<close>, with the
  vertex buffer \<^verbatim>\<open>vertPos(gridVerts.Size() * 7)\<close> of seven entries per slot and the vertex
  counter at zero. \<^verbatim>\<open>HashTable\<close> takes a \<^verbatim>\<open>uint32_t\<close>. The product \<^verbatim>\<open>gridVerts.Size() * 7\<close> is
  a product of \<^verbatim>\<open>int\<close>s: when it is no \<^verbatim>\<open>int\<close> the allocation is the error \<open>IntOverflow\<close>.
\<close>

definition fresh_state :: "int \<Rightarrow> error + VertState" where
  "fresh_state tableSize =
     (let h = HashTable (unat (word_of_int tableSize :: uint32)) 127
      in if Size h * 7 < 2 ^ 31
         then Inr \<lparr>vertPos = replicate (nat (Size h * 7)) (0, 0, 0), vertIndex = 0, gridVerts = h\<rparr>
         else Inl IntOverflow)"

text \<open>
  The factor by which a full table grows. The source divides the \<^verbatim>\<open>float\<close> \<^verbatim>\<open>maxMorton\<close> by
  \<^verbatim>\<open>lastMorton\<close>; for \<^verbatim>\<open>lastMorton = 0\<close> the quotient is infinite, and exceeds 1000.
\<close>

definition grown_tableSize :: "ComputeVerts \<Rightarrow> Uint64 \<Rightarrow> VertState \<Rightarrow> int \<Rightarrow> int" where
  "grown_tableSize p maxMorton st tableSize =
     (let lastVert = vertPos st ! nat (vertIndex st - 1);
          lastMorton = MortonCode (ivec4_of (ivec3_of_vec3
                         (vec3_divide (vec3_sub lastVert (origin p)) (spacing p))) 1);
          ratio = real (unat maxMorton) / real (unat lastMorton)
      in if lastMorton = 0 \<or> ratio > 1000 then tableSize * 2
         else float_trunc (real_of_int tableSize * ratio))"

text \<open>The \<^verbatim>\<open>while (1)\<close> loop of \<^verbatim>\<open>LevelSet\<close>, which retries the vertex pass with a larger table.\<close>

partial_function (option) LevelSet_loop ::
  "ComputeVerts \<Rightarrow> Uint64 \<Rightarrow> int \<Rightarrow> (error + VertState) option" where
  "LevelSet_loop p maxMorton tableSize =
     (case fresh_state tableSize of
        Inl e \<Rightarrow> Some (Inl e)
      | Inr st0 \<Rightarrow>
          (case vertex_pass p maxMorton st0 of
             Inl e \<Rightarrow> Some (Inl e)
           | Inr st \<Rightarrow>
               if Full (gridVerts st)
               then LevelSet_loop p maxMorton (grown_tableSize p maxMorton st tableSize)
               else Some (Inr (st\<lparr>vertPos := take (nat (vertIndex st)) (vertPos st)\<rparr>))))"

text \<open>\<^verbatim>\<open>LevelSet\<close>: the result is the pair of \<^verbatim>\<open>out.vertPos\<close> and \<^verbatim>\<open>out.triVerts\<close>.\<close>

definition LevelSet ::
  "(vec3 \<Rightarrow> real) \<Rightarrow> Box \<Rightarrow> real \<Rightarrow> real \<Rightarrow> (error + vec3 list \<times> ivec3 list) option" where
  "LevelSet f bounds edgeLength lvl =
     (let boxDim = Box_Size bounds
      in case LevelSet_gridSize boxDim edgeLength of
           None \<Rightarrow> Some (Inl InvalidConversion)
         | Some gs \<Rightarrow>
             (let sp = vec3_divide boxDim (vec3_of_ivec3 gs);
                  maxMorton = LevelSet_maxMorton gs;
                  p = \<lparr>sdf = f, origin = box_min bounds, gridSize = ivec3_plus gs 1,
                       spacing = sp, level = lvl\<rparr>
              in case LevelSet_loop p maxMorton (LevelSet_tableSize maxMorton) of
                   None \<Rightarrow> None
                 | Some (Inl e) \<Rightarrow> Some (Inl e)
                 | Some (Inr st) \<Rightarrow>
                     (let h = gridVerts st;
                          tri0 = \<lparr>triVerts = replicate (nat (sint (used h) * 12)) (0, 0, 0),
                                  triIndex = 0\<rparr>
                      in case triangle_pass h tri0 of
                           Inl e \<Rightarrow> Some (Inl e)
                         | Inr ts \<Rightarrow>
                             Some (Inr (vertPos st, take (nat (triIndex ts)) (triVerts ts))))))"

subsection \<open>Auxiliary notions of the verification\<close>

text \<open>A bounded universal quantifier that the simplifier unfolds on a numeral bound.\<close>

fun all_below :: "nat \<Rightarrow> (nat \<Rightarrow> bool) \<Rightarrow> bool" where
  "all_below 0 P = True"
| "all_below (Suc k) P = (P k \<and> all_below k P)"

text \<open>One spreading step of \<open>SpreadBits3\<close> followed by the matching step of \<open>SqueezeBits3\<close>.\<close>

definition unspread :: "nat \<Rightarrow> Uint64 \<Rightarrow> Uint64 \<Rightarrow> Uint64 \<Rightarrow> Uint64" where
  "unspread s mo mi u = (let v = (u OR push_bit s u) AND mo in (v XOR drop_bit s v) AND mi)"

text \<open>The triangle over the edge vertices that an entry of a triangle table names.\<close>

definition edge_triangle :: "int list \<Rightarrow> ivec3 \<Rightarrow> ivec3" where
  "edge_triangle edges tri =
     (edges ! nat (ivec3_at tri 0), edges ! nat (ivec3_at tri 1), edges ! nat (ivec3_at tri 2))"

text \<open>The number of bits set in a 4-bit mask.\<close>

definition bits_set :: "nat \<Rightarrow> nat" where
  "bits_set i = i mod 2 + i div 2 mod 2 + i div 4 mod 2 + i div 8 mod 2"

text \<open>The probe step of \<^verbatim>\<open>Insert\<close> and \<^verbatim>\<open>operator[]\<close>, their first slot, and the slot
  reached after \<open>n\<close> steps when the capacity is a power of two.\<close>

definition next_idx :: "HashTableD \<Rightarrow> uint32 \<Rightarrow> uint32" where
  "next_idx h idx = (idx + step h) AND word_of_int (Size h - 1)"

definition first_idx :: "HashTableD \<Rightarrow> Uint64 \<Rightarrow> uint32" where
  "first_idx h k = ucast (k AND to_Uint64 (Size h - 1))"

definition probe :: "HashTableD \<Rightarrow> Uint64 \<Rightarrow> nat \<Rightarrow> nat" where
  "probe h k n = (unat k + n * unat (step h)) mod length (table h)"

text \<open>Every occupied slot is reached from its key's first slot through occupied slots that
  hold other keys.\<close>

definition probe_inv :: "HashTableD \<Rightarrow> bool" where
  "probe_inv h =
     (\<forall>t<length (table h). key (table h ! t) \<noteq> kOpen \<longrightarrow>
        (\<exists>n. probe h (key (table h ! t)) n = t \<and>
             (\<forall>m<n. key (table h ! probe h (key (table h ! t)) m) \<noteq> kOpen \<and>
                    key (table h ! probe h (key (table h ! t)) m) \<noteq> key (table h ! t))))"

text \<open>
  The tables that arise from a freshly allocated table by calls of \<^verbatim>\<open>Insert\<close>. The key
  \<^verbatim>\<open>kOpen\<close> is reserved as the mark of an empty slot: the records that are inserted carry
  another key (the vertex pass inserts the Morton codes that it visits, and these stay below
  \<^verbatim>\<open>kOpen\<close>).
\<close>

inductive built :: "HashTableD \<Rightarrow> bool" where
  fresh: "built \<lparr>step = s, table = replicate c GridVert_default, used = 0\<rparr>"
| Insert: "built h \<Longrightarrow> key v \<noteq> kOpen \<Longrightarrow> Insert h v = Some h' \<Longrightarrow> built h'"

text \<open>Owned edge \<open>i\<close> crosses the surface, as the vertex pass tests it.\<close>

definition crossing :: "ComputeVerts \<Rightarrow> ivec4 \<Rightarrow> real \<Rightarrow> nat \<Rightarrow> bool" where
  "crossing p gridIndex d i = ((BoundedSDF p (neighborIndex gridIndex i) > 0) \<noteq> (d > 0))"

text \<open>The sign of a value as the specification words it: zero counts as positive.\<close>

definition spec_sign :: "real \<Rightarrow> int" where
  "spec_sign v = (if v \<ge> 0 then 1 else - 1)"

text \<open>The grid size as the specification's data model words it: the ceiling of the quotient.\<close>

definition spec_gridSize :: "vec3 \<Rightarrow> real \<Rightarrow> ivec3" where
  "spec_gridSize boxDim edgeLength =
     (case boxDim of (a, b, c) \<Rightarrow> (\<lceil>a / edgeLength\<rceil>, \<lceil>b / edgeLength\<rceil>, \<lceil>c / edgeLength\<rceil>))"

text \<open>All four components of an index are non-negative.\<close>

definition nonneg4 :: "ivec4 \<Rightarrow> bool" where
  "nonneg4 v = (0 \<le> ivec4_at v 0 \<and> 0 \<le> ivec4_at v 1 \<and> 0 \<le> ivec4_at v 2 \<and> 0 \<le> ivec4_at v 3)"

text \<open>The occupied slots of a table, and the invariant of the sequential vertex pass before
  the call for Morton code \<open>n\<close>: the counter of the table counts the occupied slots, their keys
  are codes of earlier calls, and at most seven vertices were allocated per occupied slot.\<close>

definition occupied :: "HashTableD \<Rightarrow> nat set" where
  "occupied h = {t. t < length (table h) \<and> key (table h ! t) \<noteq> kOpen}"

definition pass_inv :: "nat \<Rightarrow> nat \<Rightarrow> VertState \<Rightarrow> bool" where
  "pass_inv k n st =
     (length (table (gridVerts st)) = 2 ^ k \<and> odd (unat (step (gridVerts st))) \<and>
      unat (used (gridVerts st)) = card (occupied (gridVerts st)) \<and>
      (\<forall>t\<in>occupied (gridVerts st). \<exists>m<n. key (table (gridVerts st) ! t) = word_of_nat m) \<and>
      0 \<le> vertIndex st \<and> vertIndex st \<le> 7 * int (card (occupied (gridVerts st))) \<and>
      length (vertPos st) = 7 * 2 ^ k)"

text \<open>The number of triangles that share an edge, in either direction; the specification
  wants it to be two for every edge of the mesh.\<close>

definition has_edge :: "ivec3 \<Rightarrow> int \<times> int \<Rightarrow> bool" where
  "has_edge t e =
     (case (t, e) of ((a, b, c), (u, v)) \<Rightarrow>
        (u, v) \<in> set [(a, b), (b, c), (c, a)] \<or> (v, u) \<in> set [(a, b), (b, c), (c, a)])"

definition edge_count :: "ivec3 list \<Rightarrow> int \<times> int \<Rightarrow> nat" where
  "edge_count tris e = length (filter (\<lambda>t. has_edge t e) tris)"

text \<open>Concrete records, parameters and states on which the theorems are instantiated.\<close>

definition example_vert :: "Uint64 \<Rightarrow> GridVert" where
  "example_vert k = \<lparr>key = k, distance = Some 1, edgeVerts = [0, -1, -1, -1, -1, -1, -1]\<rparr>"

definition example_params :: ComputeVerts where
  "example_params = \<lparr>sdf = (\<lambda>v. case v of (a, b, c) \<Rightarrow> - \<bar>a - 5 / 2\<bar>), origin = (0, 0, 0),
                       gridSize = (4, 4, 4), spacing = (1, 1, 1), level = 0\<rparr>"

definition example_state :: "HashTableD \<Rightarrow> VertState" where
  "example_state h = \<lparr>vertPos = replicate 28 (0, 0, 0), vertIndex = 0, gridVerts = h\<rparr>"

text \<open>A cube of half-width \<open>1 / 4\<close> centred at \<open>(3 / 2, 1 / 2, 1 / 2)\<close>, as a signed distance in the
  maximum norm, and the parameters of the vertex pass that \<^verbatim>\<open>LevelSet\<close> derives for it on the box
  from the origin to \<open>(2\<^sup>2\<^sup>1, 2\<^sup>2\<^sup>1, 2\<^sup>2\<^sup>1)\<close> at edge length 1.\<close>

definition cube_sdf :: "vec3 \<Rightarrow> real" where
  "cube_sdf v = (case v of (a, b, c) \<Rightarrow> 1 / 4 - max \<bar>a - 3 / 2\<bar> (max \<bar>b - 1 / 2\<bar> \<bar>c - 1 / 2\<bar>))"

definition large_params :: ComputeVerts where
  "large_params = \<lparr>sdf = cube_sdf, origin = (0, 0, 0), gridSize = (2097153, 2097153, 2097153),
     spacing = (1, 1, 1), level = 0\<rparr>"

section \<open>Verification\<close>

subsection \<open>Morton codec\<close>

lemma all_belowD: "all_below k P \<Longrightarrow> n < k \<Longrightarrow> P n"
  by (induction k) (auto simp: less_Suc_eq)

lemma all_below_numeral: "all_below (numeral k) P = (P (pred_numeral k) \<and> all_below (pred_numeral k) P)"
  by (simp add: numeral_eq_Suc)

lemma word64_eqI: 
  fixes a b :: Uint64
  assumes "all_below 64 (\<lambda>n. bit a n = bit b n)"
  shows "a = b"
  by (rule bit_word_eqI) (use assms in \<open>auto dest: all_belowD\<close>)

lemma lvl2: "unspread 2 0x1249249249249249 0x10c30c30c30c30c3 (w AND 0x10c30c30c30c30c3) = w AND 0x10c30c30c30c30c3"
  unfolding unspread_def Let_def
  by (rule word64_eqI) (simp add: bit_simps all_below_numeral)

lemma lvl4: "unspread 4 0x10c30c30c30c30c3 0x100f00f00f00f00f (w AND 0x100f00f00f00f00f) = w AND 0x100f00f00f00f00f"
  unfolding unspread_def Let_def
  by (rule word64_eqI) (simp add: bit_simps all_below_numeral)

lemma lvl8: "unspread 8 0x100f00f00f00f00f 0x1f0000ff0000ff (w AND 0x1f0000ff0000ff) = w AND 0x1f0000ff0000ff"
  unfolding unspread_def Let_def
  by (rule word64_eqI) (simp add: bit_simps all_below_numeral)

lemma lvl16: "unspread 16 0x1f0000ff0000ff 0x1f00000000ffff (w AND 0x1f00000000ffff) = w AND 0x1f00000000ffff"
  unfolding unspread_def Let_def
  by (rule word64_eqI) (simp add: bit_simps all_below_numeral)

lemma lvl32: "unspread 32 0x1f00000000ffff 0x1fffff (w AND 0x1fffff) = w AND 0x1fffff"
  unfolding unspread_def Let_def
  by (rule word64_eqI) (simp add: bit_simps all_below_numeral)

lemma Squeeze_Spread: "SqueezeBits3 (SpreadBits3 v) = v AND 0x1fffff"
proof -
  define v0 where "v0 = v AND 0x1fffff"
  define v1 where "v1 = (v0 OR push_bit 32 v0) AND 0x1f00000000ffff"
  define v2 where "v2 = (v1 OR push_bit 16 v1) AND 0x1f0000ff0000ff"
  define v3 where "v3 = (v2 OR push_bit 8 v2) AND 0x100f00f00f00f00f"
  define v4 where "v4 = (v3 OR push_bit 4 v3) AND 0x10c30c30c30c30c3"
  define v5 where "v5 = (v4 OR push_bit 2 v4) AND 0x1249249249249249"
  have sp: "SpreadBits3 v = v5"
    by (simp add: SpreadBits3_def Let_def v0_def v1_def v2_def v3_def v4_def v5_def)
  have s0: "v5 AND 0x1249249249249249 = v5"
    by (simp add: v5_def and.assoc)
  have s1: "(v5 XOR drop_bit 2 v5) AND 0x10c30c30c30c30c3 = v4"
    using lvl2 [of "v3 OR push_bit 4 v3"] by (simp add: unspread_def Let_def v5_def v4_def)
  have s2: "(v4 XOR drop_bit 4 v4) AND 0x100f00f00f00f00f = v3"
    using lvl4 [of "v2 OR push_bit 8 v2"] by (simp add: unspread_def Let_def v4_def v3_def)
  have s3: "(v3 XOR drop_bit 8 v3) AND 0x1f0000ff0000ff = v2"
    using lvl8 [of "v1 OR push_bit 16 v1"] by (simp add: unspread_def Let_def v3_def v2_def)
  have s4: "(v2 XOR drop_bit 16 v2) AND 0x1f00000000ffff = v1"
    using lvl16 [of "v0 OR push_bit 32 v0"] by (simp add: unspread_def Let_def v2_def v1_def)
  have s5: "(v1 XOR drop_bit 32 v1) AND 0x1fffff = v0"
    using lvl32 [of v] by (simp add: unspread_def Let_def v1_def v0_def)
  show ?thesis
    unfolding sp SqueezeBits3_def Let_def s0 s1 s2 s3 s4 s5 by (simp add: v0_def)
qed

lemma Spread_masked: "SpreadBits3 v AND 0x1249249249249249 = SpreadBits3 v"
  by (simp add: SpreadBits3_def Let_def and.assoc)

lemma Squeeze_masked: "SqueezeBits3 (v AND 0x1249249249249249) = SqueezeBits3 v"
  by (simp add: SqueezeBits3_def Let_def and.assoc)

lemma pick_x: 
  fixes a b c w :: Uint64
  assumes "w = 0 \<or> w = 1"
  shows "drop_bit 1 (w OR push_bit 1 (a AND 0x1249249249249249) OR push_bit 2 (b AND 0x1249249249249249) OR push_bit 3 (c AND 0x1249249249249249)) AND 0x1249249249249249 = a AND 0x1249249249249249"
  using assms
  by (elim disjE; hypsubst; intro word64_eqI) (simp_all add: bit_simps all_below_numeral mult.commute [of _ "2::Uint64"])

lemma pick_y: 
  fixes a b c w :: Uint64
  assumes "w = 0 \<or> w = 1"
  shows "drop_bit 2 (w OR push_bit 1 (a AND 0x1249249249249249) OR push_bit 2 (b AND 0x1249249249249249) OR push_bit 3 (c AND 0x1249249249249249)) AND 0x1249249249249249 = b AND 0x1249249249249249"
  using assms
  by (elim disjE; hypsubst; intro word64_eqI) (simp_all add: bit_simps all_below_numeral mult.commute [of _ "2::Uint64"])

lemma pick_z: 
  fixes a b c w :: Uint64
  assumes "w = 0 \<or> w = 1"
  shows "drop_bit 3 (w OR push_bit 1 (a AND 0x1249249249249249) OR push_bit 2 (b AND 0x1249249249249249) OR push_bit 3 (c AND 0x1249249249249249)) AND 0x1249249249249249 = c AND 0x1249249249249249"
  using assms
  by (elim disjE; hypsubst; intro word64_eqI) (simp_all add: bit_simps all_below_numeral mult.commute [of _ "2::Uint64"])

lemma pick_w: 
  fixes a b c w :: Uint64
  assumes "w = 0 \<or> w = 1"
  shows "(w OR push_bit 1 a OR push_bit 2 b OR push_bit 3 c) AND 1 = w"
  using assms
  by (elim disjE; hypsubst; intro word64_eqI) (simp_all add: bit_simps all_below_numeral mult.commute [of _ "2::Uint64"])

lemma to_int_small: 
  fixes v :: Uint64
  assumes "v < 2 ^ 31"
  shows "to_int v = uint v"
proof -
  have u: "uint v < 2 ^ 31" using assms by (simp add: word_less_def)
  have "uint (ucast v :: uint32) = uint v"
    using u by (simp add: unsigned_ucast_eq take_bit_int_eq_self)
  moreover have "signed_take_bit 31 (uint v) = uint v"
    by (rule signed_take_bit_int_eq_self) (use u in \<open>simp_all add: order_trans [of _ 0]\<close>)
  ultimately have "sint (ucast v :: uint32) = uint v"
    by (simp add: sint_uint)
  then show ?thesis by (simp add: to_int_def)
qed

lemma to_Uint64_mask21: 
  assumes "0 \<le> x" "x < 2 ^ 21"
  shows "to_Uint64 x AND 0x1fffff = to_Uint64 x"
proof -
  have "(0x1fffff :: Uint64) = mask 21" by (simp add: mask_eq_exp_minus_1)
  then have "to_Uint64 x AND 0x1fffff = take_bit 21 (to_Uint64 x)"
    by (simp add: take_bit_eq_mask)
  also have "\<dots> = to_Uint64 x"
    using assms unfolding to_Uint64_def
    by (simp add: take_bit_of_int take_bit_int_eq_self)
  finally show ?thesis .
qed

lemma uint_to_Uint64:
  assumes "0 \<le> x" "x < 2 ^ 21"
  shows "uint (to_Uint64 x) = x"
  using assms unfolding to_Uint64_def
  by (simp add: uint_word_of_int take_bit_int_eq_self)

lemma to_int_to_Uint64:
  assumes "0 \<le> x" "x < 2 ^ 21"
  shows "to_int (to_Uint64 x) = x"
proof -
  have u: "uint (to_Uint64 x) = x" using assms by (rule uint_to_Uint64)
  have "uint (to_Uint64 x) < 2 ^ 31" using assms(2) unfolding u by simp
  then have "to_Uint64 x < 2 ^ 31" by (simp add: word_less_def)
  then show ?thesis using u by (simp add: to_int_small)
qed

lemma to_Uint64_bit: "w = 0 \<or> w = 1 \<Longrightarrow> to_Uint64 w = 0 \<or> to_Uint64 w = 1"
  by (auto simp: to_Uint64_def)

text \<open>
  Claim C2: for every grid index whose \<open>x\<close>, \<open>y\<close>, \<open>z\<close> lie in \<open>[0, 2\<^sup>2\<^sup>1)\<close> and whose \<open>w\<close> is
  0 or 1, decoding the Morton code of the index gives the index back.
\<close>

theorem Morton_roundtrip:
  assumes "0 \<le> x" "x < 2 ^ 21" "0 \<le> y" "y < 2 ^ 21" "0 \<le> z" "z < 2 ^ 21" "w = 0 \<or> w = 1"
  shows "DecodeMorton (MortonCode (x, y, z, w)) = (x, y, z, w)"
proof -
  define a where "a = SpreadBits3 (to_Uint64 x)"
  define b where "b = SpreadBits3 (to_Uint64 y)"
  define c where "c = SpreadBits3 (to_Uint64 z)"
  define W where "W = to_Uint64 w"
  define code where "code = W OR push_bit 1 (a AND 0x1249249249249249) OR
    push_bit 2 (b AND 0x1249249249249249) OR push_bit 3 (c AND 0x1249249249249249)"
  have code: "MortonCode (x, y, z, w) = code"
    by (simp add: code_def a_def b_def c_def W_def Spread_masked)
  have W: "W = 0 \<or> W = 1"
    unfolding W_def using assms(7) by (rule to_Uint64_bit)
  have "SqueezeBits3 (drop_bit 1 code) = SqueezeBits3 (drop_bit 1 code AND 0x1249249249249249)"
    by (simp only: Squeeze_masked)
  also have "\<dots> = SqueezeBits3 (a AND 0x1249249249249249)"
    unfolding code_def by (simp only: pick_x [OF W])
  also have "\<dots> = to_Uint64 x"
    using assms(1,2) by (simp add: a_def Spread_masked Squeeze_Spread to_Uint64_mask21)
  finally have X: "to_int (SqueezeBits3 (drop_bit 1 code)) = x"
    using assms(1,2) by (simp add: to_int_to_Uint64)
  have "SqueezeBits3 (drop_bit 2 code) = SqueezeBits3 (drop_bit 2 code AND 0x1249249249249249)"
    by (simp only: Squeeze_masked)
  also have "\<dots> = SqueezeBits3 (b AND 0x1249249249249249)"
    unfolding code_def by (simp only: pick_y [OF W])
  also have "\<dots> = to_Uint64 y"
    using assms(3,4) by (simp add: b_def Spread_masked Squeeze_Spread to_Uint64_mask21)
  finally have Y: "to_int (SqueezeBits3 (drop_bit 2 code)) = y"
    using assms(3,4) by (simp add: to_int_to_Uint64)
  have "SqueezeBits3 (drop_bit 3 code) = SqueezeBits3 (drop_bit 3 code AND 0x1249249249249249)"
    by (simp only: Squeeze_masked)
  also have "\<dots> = SqueezeBits3 (c AND 0x1249249249249249)"
    unfolding code_def by (simp only: pick_z [OF W])
  also have "\<dots> = to_Uint64 z"
    using assms(5,6) by (simp add: c_def Spread_masked Squeeze_Spread to_Uint64_mask21)
  finally have Z: "to_int (SqueezeBits3 (drop_bit 3 code)) = z"
    using assms(5,6) by (simp add: to_int_to_Uint64)
  have "code AND 1 = W"
    unfolding code_def by (rule pick_w [OF W])
  then have "to_int (code AND 1) = w"
    using assms(7) by (auto simp: W_def to_int_to_Uint64)
  with X Y Z show ?thesis
    unfolding code by (simp add: DecodeMorton_def)
qed

text \<open>The round trip at the index \<open>(5, 2\<^sup>2\<^sup>1 - 1, 0, 1)\<close>.\<close>

theorem Morton_roundtrip_witness:
  "DecodeMorton (MortonCode (5, 2097151, 0, 1)) = (5, 2097151, 0, 1)"
  using Morton_roundtrip [of 5 2097151 0 1] by simp

subsection \<open>The triangle tables\<close>

lemma TetTri_tables: "all_below 16 (\<lambda>i. 
   (TetTri0 i = (-1, -1, -1) \<longleftrightarrow> i = 0 \<or> i = 15) \<and>
   (TetTri1 i \<noteq> (-1, -1, -1) \<longleftrightarrow> bits_set i = 2) \<and>
   (0 \<le> ivec3_at (TetTri0 i) 0 \<longleftrightarrow> \<not> (i = 0 \<or> i = 15)) \<and>
   (0 \<le> ivec3_at (TetTri1 i) 0 \<longleftrightarrow> bits_set i = 2))"
  by (simp add: all_below_numeral TetTri0_def TetTri1_def tetTri0_def tetTri1_def bits_set_def)

lemma CreateTri_emit:
  assumes "0 \<le> ivec3_at tri 0" "0 \<le> triIndex st" "nat (triIndex st) < length (triVerts st)"
  shows "CreateTri tri edges st =
           Inr (st\<lparr>triIndex := triIndex st + 1,
                   triVerts := (triVerts st)[nat (triIndex st) := edge_triangle edges tri]\<rparr>)"
  using assms by (simp add: CreateTri_def Let_def edge_triangle_def)

lemma CreateTri_skip: "ivec3_at tri 0 < 0 \<Longrightarrow> CreateTri tri edges st = Inr st"
  by (simp add: CreateTri_def)

text \<open>
  Claim C10: for a 4-bit corner mask \<open>i\<close>, \<open>CreateTris\<close> emits no triangle when \<open>i\<close> is 0 or
  15, two triangles when exactly two bits of \<open>i\<close> are set and one triangle otherwise, given
  room for them in the buffer. In the first case it leaves the buffer and the counter as they
  are; in the second it writes the triangles of \<open>TetTri0 i\<close> and \<open>TetTri1 i\<close> over the given
  edges to the next two entries of the buffer and advances the counter by two; in the third
  it writes the triangle of \<open>TetTri0 i\<close> to the next entry and advances the counter by one.
  \<open>TetTri1 i\<close> is the sentinel whenever \<open>TetTri0 i\<close> is, and \<open>TetTri1 i\<close> is not the sentinel
  exactly for the two-bit masks.
\<close>

theorem CreateTris_triangle_count:
  assumes "i < 16" and "tetMask tet = i" and "0 \<le> triIndex st"
    and "nat (triIndex st) + (if i = 0 \<or> i = 15 then 0 else if bits_set i = 2 then 2 else 1)
           \<le> length (triVerts st)"
  shows "CreateTris tet edges st =
           Inr (if i = 0 \<or> i = 15 then st
                else if bits_set i = 2
                then st\<lparr>triIndex := triIndex st + 2,
                        triVerts := (triVerts st)[nat (triIndex st) := edge_triangle edges (TetTri0 i),
                                       nat (triIndex st) + 1 := edge_triangle edges (TetTri1 i)]\<rparr>
                else st\<lparr>triIndex := triIndex st + 1,
                        triVerts := (triVerts st)[nat (triIndex st) := edge_triangle edges (TetTri0 i)]\<rparr>) \<and>
         (TetTri0 i = (-1, -1, -1) \<longrightarrow> TetTri1 i = (-1, -1, -1)) \<and>
         (TetTri1 i \<noteq> (-1, -1, -1) \<longleftrightarrow> bits_set i = 2)"
proof -
  from all_belowD [OF TetTri_tables assms(1)]
  have t0: "0 \<le> ivec3_at (TetTri0 i) 0 \<longleftrightarrow> \<not> (i = 0 \<or> i = 15)"
    and t1: "0 \<le> ivec3_at (TetTri1 i) 0 \<longleftrightarrow> bits_set i = 2"
    and s0: "TetTri0 i = (-1, -1, -1) \<longleftrightarrow> i = 0 \<or> i = 15"
    and s1: "TetTri1 i \<noteq> (-1, -1, -1) \<longleftrightarrow> bits_set i = 2"
    by simp_all
  have b: "bits_set i = 2 \<Longrightarrow> \<not> (i = 0 \<or> i = 15)"
    by (auto simp: bits_set_def)
  have run: "CreateTris tet edges st =
      bindE (CreateTri (TetTri0 i) edges st) (CreateTri (TetTri1 i) edges)"
    by (simp add: CreateTris_def Let_def assms(2))
  consider (none) "i = 0 \<or> i = 15" | (two) "bits_set i = 2" |
    (one) "\<not> (i = 0 \<or> i = 15)" "bits_set i \<noteq> 2"
    by blast
  then have "CreateTris tet edges st =
           Inr (if i = 0 \<or> i = 15 then st
                else if bits_set i = 2
                then st\<lparr>triIndex := triIndex st + 2,
                        triVerts := (triVerts st)[nat (triIndex st) := edge_triangle edges (TetTri0 i),
                                       nat (triIndex st) + 1 := edge_triangle edges (TetTri1 i)]\<rparr>
                else st\<lparr>triIndex := triIndex st + 1,
                        triVerts := (triVerts st)[nat (triIndex st) := edge_triangle edges (TetTri0 i)]\<rparr>)"
  proof cases
    case none
    then have "ivec3_at (TetTri0 i) 0 < 0" "ivec3_at (TetTri1 i) 0 < 0"
      using t0 t1 b by fastforce+
    then show ?thesis using none by (simp add: run CreateTri_skip bindE_def)
  next
    case two
    then have n: "\<not> (i = 0 \<or> i = 15)" by (rule b)
    have r0: "nat (triIndex st) < length (triVerts st)" using assms(4) n two by simp
    have e0: "0 \<le> ivec3_at (TetTri0 i) 0" and e1: "0 \<le> ivec3_at (TetTri1 i) 0"
      using t0 t1 n two by simp_all
    have r1: "nat (triIndex st + 1) < length (triVerts st)"
      using assms(3,4) n two by (simp add: nat_add_distrib)
    show ?thesis
      using n two assms(3) r1
      by (simp add: run CreateTri_emit [OF e0 assms(3) r0] bindE_def CreateTri_emit [OF e1]
          nat_add_distrib)
  next
    case one
    have r0: "nat (triIndex st) < length (triVerts st)" using assms(4) one by simp
    have e0: "0 \<le> ivec3_at (TetTri0 i) 0" using t0 one by simp
    have "ivec3_at (TetTri1 i) 0 < 0" using t1 one by fastforce
    then show ?thesis
      using one by (simp add: run CreateTri_emit [OF e0 assms(3) r0] bindE_def CreateTri_skip)
  qed
  then show ?thesis using s0 s1 b by blast
qed

text \<open>
  The mask 3 (corners 0 and 1 inside) on the edges \<open>10, \<dots>, 15\<close>: the triangles \<open>(11, 15, 13)\<close>
  of \<open>TetTri0 3 = (1, 5, 3)\<close> and \<open>(13, 14, 11)\<close> of \<open>TetTri1 3 = (3, 4, 1)\<close> are written behind
  the one triangle that the buffer holds.
\<close>

theorem CreateTris_triangle_count_witness:
  "CreateTris (1, 1, - 1, - 1) [10, 11, 12, 13, 14, 15]
     \<lparr>triVerts = [(0, 0, 0), (0, 0, 0), (0, 0, 0)], triIndex = 1\<rparr> =
     Inr \<lparr>triVerts = [(0, 0, 0), (11, 15, 13), (13, 14, 11)], triIndex = 3\<rparr> \<and>
   TetTri1 3 = (3, 4, 1)"
  using CreateTris_triangle_count [of 3 "(1, 1, - 1, - 1)"
      "\<lparr>triVerts = [(0, 0, 0), (0, 0, 0), (0, 0, 0)], triIndex = 1\<rparr>" "[10, 11, 12, 13, 14, 15]"]
  by (simp add: tetMask_def bits_set_def TetTri0_def TetTri1_def tetTri0_def tetTri1_def
      edge_triangle_def)

subsection \<open>The hash table\<close>

lemma mask32: "k \<le> 32 \<Longrightarrow> (word_of_int (2 ^ k - 1) :: uint32) = mask k"
  by (simp add: mask_eq_decr_exp word_of_int_2p)

lemma mask64: "(word_of_int (2 ^ k - 1) :: Uint64) = mask k"
  by (simp add: mask_eq_decr_exp word_of_int_2p)

lemma unat_and_mask32: "unat ((w :: uint32) AND mask k) = unat w mod 2 ^ k"
  by (simp add: unsigned_take_bit_eq take_bit_nat_def flip: take_bit_eq_mask)

lemma unat_and_mask64: "unat ((w :: Uint64) AND mask k) = unat w mod 2 ^ k"
  by (simp add: unsigned_take_bit_eq take_bit_nat_def flip: take_bit_eq_mask)

lemma pow2_dvd_32: "k \<le> 32 \<Longrightarrow> (2::nat) ^ k dvd 4294967296"
proof -
  assume "k \<le> 32"
  then have "(2::nat) ^ k dvd 2 ^ 32" by (rule le_imp_power_dvd)
  then show ?thesis by simp
qed

lemma pow2_le_32: "k \<le> 32 \<Longrightarrow> (2::nat) ^ k \<le> 4294967296"
  using pow2_dvd_32 [of k] by (simp add: dvd_imp_le)

lemma unat_next_idx:
  assumes "length (table h) = 2 ^ k" "k \<le> 32"
  shows "unat (next_idx h idx) = (unat idx + unat (step h)) mod 2 ^ k"
proof -
  have "(2::nat) ^ k dvd 4294967296" using assms(2) by (rule pow2_dvd_32)
  then have "(unat idx + unat (step h)) mod 4294967296 mod 2 ^ k = (unat idx + unat (step h)) mod 2 ^ k"
    by (rule mod_mod_cancel)
  moreover have "(word_of_int (Size h - 1) :: uint32) = mask k"
    using assms mask32 [of k] by (simp add: Size_def)
  ultimately show ?thesis
    by (simp only: next_idx_def unat_and_mask32) (simp add: unat_word_ariths)
qed

lemma unat_first_idx:
  assumes "length (table h) = 2 ^ k" "k \<le> 32"
  shows "unat (first_idx h key0) = unat key0 mod 2 ^ k"
proof -
  have "unat key0 mod 2 ^ k < 2 ^ k" by simp
  also have "(2::nat) ^ k \<le> 4294967296" using assms(2) by (rule pow2_le_32)
  finally have "unat key0 mod 2 ^ k < 4294967296" .
  moreover have "to_Uint64 (Size h - 1) = mask k"
    using assms mask64 [of k] by (simp add: Size_def to_Uint64_def)
  ultimately show ?thesis
    by (simp only: first_idx_def unsigned_ucast_eq unat_and_mask64) (simp add: take_bit_nat_def)
qed

lemma unat_funpow_next_idx:
  assumes "length (table h) = 2 ^ k" "k \<le> 32"
  shows "unat ((next_idx h ^^ n) (first_idx h key0)) = probe h key0 n"
proof (induction n)
  case 0
  then show ?case using assms by (simp add: unat_first_idx probe_def)
next
  case (Suc n)
  then show ?case using assms
    by (simp add: unat_next_idx probe_def mod_add_left_eq mod_add_right_eq ac_simps)
qed

lemma probe_less: "length (table h) = 2 ^ k \<Longrightarrow> probe h key0 n < length (table h)"
  by (simp add: probe_def)

lemma probe_inj:
  assumes C: "length (table h) = 2 ^ k" and g: "gcd (unat (step h)) (2 ^ k) = 1"
    and "i < j" "j < 2 ^ k" 
  shows "probe h key0 i \<noteq> probe h key0 j"
proof
  assume "probe h key0 i = probe h key0 j"
  then have "(unat key0 + j * unat (step h)) mod 2 ^ k = (unat key0 + i * unat (step h)) mod 2 ^ k"
    by (simp add: probe_def C)
  moreover have "unat key0 + i * unat (step h) \<le> unat key0 + j * unat (step h)"
    using assms(3) by simp
  ultimately have "2 ^ k dvd (unat key0 + j * unat (step h)) - (unat key0 + i * unat (step h))"
    by (simp add: mod_eq_dvd_iff_nat)
  moreover have "(unat key0 + j * unat (step h)) - (unat key0 + i * unat (step h)) = (j - i) * unat (step h)"
    by (simp add: diff_mult_distrib)
  moreover have "coprime (2 ^ k) (unat (step h))"
    using g by (simp add: coprime_iff_gcd_eq_1 gcd.commute)
  ultimately have "2 ^ k dvd j - i"
    by (simp add: coprime_dvd_mult_left_iff)
  then have "2 ^ k \<le> j - i" using assms(3) by (simp add: dvd_imp_le)
  with assms(4) show False by simp
qed

lemma probe_surj:
  assumes C: "length (table h) = 2 ^ k" and g: "gcd (unat (step h)) (2 ^ k) = 1"
    and t: "t < 2 ^ k"
  shows "\<exists>n < 2 ^ k. probe h key0 n = t"
proof -
  have inj: "inj_on (probe h key0) {..<2 ^ k}"
  proof (rule inj_onI)
    fix i j assume "i \<in> {..<2 ^ k :: nat}" "j \<in> {..<2 ^ k :: nat}" "probe h key0 i = probe h key0 j"
    then show "i = j"
      using probe_inj [OF C g, of i j key0] probe_inj [OF C g, of j i key0]
      by (cases i j rule: linorder_cases) auto
  qed
  have sub: "probe h key0 ` {..<2 ^ k} \<subseteq> {..<2 ^ k}"
    using probe_less [OF C] C by auto
  have "card (probe h key0 ` {..<2 ^ k}) = card {..<2 ^ k :: nat}"
    using inj by (rule card_image)
  with sub have "probe h key0 ` {..<2 ^ k} = {..<2 ^ k}"
    by (simp add: card_subset_eq)
  with t have "t \<in> probe h key0 ` {..<2 ^ k}" by simp
  then show ?thesis by auto
qed

lemma next_idx_less:
  assumes "length (table h) = 2 ^ k" "k \<le> 32"
  shows "unat (next_idx h idx) < length (table h)"
  using assms by (simp add: unat_next_idx)

lemma first_idx_less:
  assumes "length (table h) = 2 ^ k" "k \<le> 32"
  shows "unat (first_idx h key0) < length (table h)"
  using assms by (simp add: unat_first_idx)

lemma Lookup_loop_first:
  assumes C: "length (table h) = 2 ^ k" "k \<le> 32"
    and "unat idx < length (table h)"
    and "key (table h ! unat ((next_idx h ^^ n) idx)) = key0 \<or>
         key (table h ! unat ((next_idx h ^^ n) idx)) = kOpen"
    and "\<forall>m<n. key (table h ! unat ((next_idx h ^^ m) idx)) \<noteq> key0 \<and>
               key (table h ! unat ((next_idx h ^^ m) idx)) \<noteq> kOpen"
  shows "Lookup_loop h key0 idx = Some (table h ! unat ((next_idx h ^^ n) idx))"
  using assms(3-)
proof (induction n arbitrary: idx)
  case 0
  then show ?case
    by (subst Lookup_loop.simps) (auto simp: Let_def)
next
  case (Suc n)
  have miss: "key (table h ! unat idx) \<noteq> key0" "key (table h ! unat idx) \<noteq> kOpen"
    using Suc.prems(3) [rule_format, of 0] by simp_all
  have "Lookup_loop h key0 (next_idx h idx) =
          Some (table h ! unat ((next_idx h ^^ n) (next_idx h idx)))"
  proof (rule Suc.IH)
    show "unat (next_idx h idx) < length (table h)" using C by (rule next_idx_less)
    show "key (table h ! unat ((next_idx h ^^ n) (next_idx h idx))) = key0 \<or>
          key (table h ! unat ((next_idx h ^^ n) (next_idx h idx))) = kOpen"
      using Suc.prems(2) by (simp add: funpow_swap1)
    show "\<forall>m<n. key (table h ! unat ((next_idx h ^^ m) (next_idx h idx))) \<noteq> key0 \<and>
               key (table h ! unat ((next_idx h ^^ m) (next_idx h idx))) \<noteq> kOpen"
      using Suc.prems(3) [rule_format, of "Suc _"] by (simp add: funpow_swap1)
  qed
  then show ?case
    using miss Suc.prems(1)
    by (subst Lookup_loop.simps) (simp add: Let_def funpow_swap1 next_idx_def)
qed

lemma Insert_loop_first:
  assumes C: "length (table h) = 2 ^ k" "k \<le> 32"
    and "unat idx < length (table h)"
    and "key (table h ! unat ((next_idx h ^^ n) idx)) = key v \<or>
         key (table h ! unat ((next_idx h ^^ n) idx)) = kOpen"
    and "\<forall>m<n. key (table h ! unat ((next_idx h ^^ m) idx)) \<noteq> key v \<and>
               key (table h ! unat ((next_idx h ^^ m) idx)) \<noteq> kOpen"
  shows "Insert_loop h v idx =
           (if key (table h ! unat ((next_idx h ^^ n) idx)) = kOpen
            then Some (h\<lparr>used := used h + 1,
                         table := (table h)[unat ((next_idx h ^^ n) idx) := v]\<rparr>)
            else Some h)"
  using assms(3-)
proof (induction n arbitrary: idx)
  case 0
  then show ?case
    by (subst Insert_loop.simps) (auto simp: Let_def)
next
  case (Suc n)
  have miss: "key (table h ! unat idx) \<noteq> key v" "key (table h ! unat idx) \<noteq> kOpen"
    using Suc.prems(3) [rule_format, of 0] by simp_all
  have "Insert_loop h v (next_idx h idx) =
           (if key (table h ! unat ((next_idx h ^^ n) (next_idx h idx))) = kOpen
            then Some (h\<lparr>used := used h + 1,
                         table := (table h)[unat ((next_idx h ^^ n) (next_idx h idx)) := v]\<rparr>)
            else Some h)"
  proof (rule Suc.IH)
    show "unat (next_idx h idx) < length (table h)" using C by (rule next_idx_less)
    show "key (table h ! unat ((next_idx h ^^ n) (next_idx h idx))) = key v \<or>
          key (table h ! unat ((next_idx h ^^ n) (next_idx h idx))) = kOpen"
      using Suc.prems(2) by (simp add: funpow_swap1)
    show "\<forall>m<n. key (table h ! unat ((next_idx h ^^ m) (next_idx h idx))) \<noteq> key v \<and>
               key (table h ! unat ((next_idx h ^^ m) (next_idx h idx))) \<noteq> kOpen"
      using Suc.prems(3) [rule_format, of "Suc _"] by (simp add: funpow_swap1)
  qed
  then show ?case
    using miss Suc.prems(1)
    by (subst Insert_loop.simps) (simp add: Let_def funpow_swap1 next_idx_def)
qed

lemma Insert_loop_Some:
  assumes "Insert_loop h v idx = Some h'"
  shows "\<exists>n. (\<forall>m<n. key (table h ! unat ((next_idx h ^^ m) idx)) \<noteq> key v \<and>
                     key (table h ! unat ((next_idx h ^^ m) idx)) \<noteq> kOpen) \<and>
             unat ((next_idx h ^^ n) idx) < length (table h) \<and>
             (if key (table h ! unat ((next_idx h ^^ n) idx)) = kOpen
              then h' = h\<lparr>used := used h + 1,
                           table := (table h)[unat ((next_idx h ^^ n) idx) := v]\<rparr>
              else key (table h ! unat ((next_idx h ^^ n) idx)) = key v \<and> h' = h)"
  using assms
proof (induction h v idx h' rule: Insert_loop.raw_induct [rotated 1, consumes 1])
  case (1 f h vert idx ha)
  show ?case
  proof (cases "length (table h) \<le> unat idx")
    case True
    with 1(2) show ?thesis by simp
  next
    case inr: False
    show ?thesis
    proof (cases "key (table h ! unat idx) = kOpen \<or> key (table h ! unat idx) = key vert")
      case True
      with 1(2) inr show ?thesis
        by (intro exI [of _ 0]) (auto simp: Let_def split: if_splits)
    next
      case False
      with 1(2) inr have "f h vert (next_idx h idx) = Some ha"
        by (simp add: Let_def next_idx_def)
      from 1(1) [OF this] obtain n where
        n: "(\<forall>m<n. key (table h ! unat ((next_idx h ^^ m) (next_idx h idx))) \<noteq> key vert \<and>
                     key (table h ! unat ((next_idx h ^^ m) (next_idx h idx))) \<noteq> kOpen) \<and>
            unat ((next_idx h ^^ n) (next_idx h idx)) < length (table h) \<and>
            (if key (table h ! unat ((next_idx h ^^ n) (next_idx h idx))) = kOpen
              then ha = h\<lparr>used := used h + 1,
                           table := (table h)[unat ((next_idx h ^^ n) (next_idx h idx)) := vert]\<rparr>
              else key (table h ! unat ((next_idx h ^^ n) (next_idx h idx))) = key vert \<and> ha = h)"
        ..
      from n have a: "\<forall>m<n. key (table h ! unat ((next_idx h ^^ m) (next_idx h idx))) \<noteq> key vert \<and>
                     key (table h ! unat ((next_idx h ^^ m) (next_idx h idx))) \<noteq> kOpen"
        by (rule conjunct1)
      from n have b: "unat ((next_idx h ^^ n) (next_idx h idx)) < length (table h)"
        by (rule conjunct1 [OF conjunct2])
      from n have c: "if key (table h ! unat ((next_idx h ^^ n) (next_idx h idx))) = kOpen
              then ha = h\<lparr>used := used h + 1,
                           table := (table h)[unat ((next_idx h ^^ n) (next_idx h idx)) := vert]\<rparr>
              else key (table h ! unat ((next_idx h ^^ n) (next_idx h idx))) = key vert \<and> ha = h"
        by (rule conjunct2 [OF conjunct2])
      have a': "\<forall>m<Suc n. key (table h ! unat ((next_idx h ^^ m) idx)) \<noteq> key vert \<and>
                     key (table h ! unat ((next_idx h ^^ m) idx)) \<noteq> kOpen"
      proof (intro allI impI)
        fix m assume "m < Suc n"
        then show "key (table h ! unat ((next_idx h ^^ m) idx)) \<noteq> key vert \<and>
                     key (table h ! unat ((next_idx h ^^ m) idx)) \<noteq> kOpen"
          using False a by (cases m) (auto simp: funpow_swap1)
      qed
      show ?thesis
        apply (rule exI [of _ "Suc n"])
        using a' b c by (simp add: funpow_swap1)
    qed
  qed
qed

lemma Insert_Some:
  assumes "Insert h v = Some h'"
  shows "step h' = step h \<and> length (table h') = length (table h)"
  using Insert_loop_Some [of h v "first_idx h (key v)" h'] assms
  by (auto simp: Insert_def first_idx_def split: if_splits)

lemma Insert_Some_probe:
  assumes C: "length (table h) = 2 ^ k" "k \<le> 32" and "Insert h v = Some h'"
  shows "\<exists>n. (\<forall>m<n. key (table h ! probe h (key v) m) \<noteq> key v \<and>
                    key (table h ! probe h (key v) m) \<noteq> kOpen) \<and>
             (if key (table h ! probe h (key v) n) = kOpen
              then h' = h\<lparr>used := used h + 1, table := (table h)[probe h (key v) n := v]\<rparr>
              else key (table h ! probe h (key v) n) = key v \<and> h' = h)"
proof -
  have "Insert_loop h v (first_idx h (key v)) = Some h'"
    using assms(3) by (simp add: Insert_def first_idx_def)
  from Insert_loop_Some [OF this, unfolded unat_funpow_next_idx [OF C]]
  obtain n where n: "(\<forall>m<n. key (table h ! probe h (key v) m) \<noteq> key v \<and>
                    key (table h ! probe h (key v) m) \<noteq> kOpen) \<and>
             probe h (key v) n < length (table h) \<and>
             (if key (table h ! probe h (key v) n) = kOpen
              then h' = h\<lparr>used := used h + 1, table := (table h)[probe h (key v) n := v]\<rparr>
              else key (table h ! probe h (key v) n) = key v \<and> h' = h)" ..
  show ?thesis
    by (rule exI [of _ n]) (use n in blast)
qed

lemma Insert_first:
  assumes C: "length (table h) = 2 ^ k" "k \<le> 32"
    and "key (table h ! probe h (key v) n) = key v \<or> key (table h ! probe h (key v) n) = kOpen"
    and "\<forall>m<n. key (table h ! probe h (key v) m) \<noteq> key v \<and>
               key (table h ! probe h (key v) m) \<noteq> kOpen"
  shows "Insert h v =
           (if key (table h ! probe h (key v) n) = kOpen
            then Some (h\<lparr>used := used h + 1, table := (table h)[probe h (key v) n := v]\<rparr>)
            else Some h)"
  using Insert_loop_first [OF C first_idx_less [OF C], where n = n and v = v] assms(3,4)
  by (simp add: Insert_def first_idx_def [symmetric] unat_funpow_next_idx [OF C] cong: if_cong)

lemma Lookup_first:
  assumes C: "length (table h) = 2 ^ k" "k \<le> 32"
    and "key (table h ! probe h key0 n) = key0 \<or> key (table h ! probe h key0 n) = kOpen"
    and "\<forall>m<n. key (table h ! probe h key0 m) \<noteq> key0 \<and>
               key (table h ! probe h key0 m) \<noteq> kOpen"
  shows "Lookup h key0 = Some (table h ! probe h key0 n)"
  using Lookup_loop_first [OF C first_idx_less [OF C], where n = n and ?key0.0 = key0 and ?key0.1 = key0]
    assms(3,4)
  by (simp add: Lookup_def first_idx_def [symmetric] unat_funpow_next_idx [OF C])

lemma first_hit:
  assumes "P (n::nat)"
  shows "\<exists>n0. P n0 \<and> (\<forall>m<n0. \<not> P m)"
  using assms by (metis exists_least_iff)

lemma probe_inv_Insert:
  assumes C: "length (table h) = 2 ^ k" "k \<le> 32" and inv: "probe_inv h"
    and ins: "Insert h v = Some h'"
  shows "probe_inv h'"
proof -
  from Insert_Some_probe [OF C ins] obtain n where
    miss: "\<forall>m<n. key (table h ! probe h (key v) m) \<noteq> key v \<and>
                    key (table h ! probe h (key v) m) \<noteq> kOpen"
    and res: "if key (table h ! probe h (key v) n) = kOpen
              then h' = h\<lparr>used := used h + 1, table := (table h)[probe h (key v) n := v]\<rparr>
              else key (table h ! probe h (key v) n) = key v \<and> h' = h"
    by blast
  show ?thesis
  proof (cases "key (table h ! probe h (key v) n) = kOpen")
    case False
    with res inv show ?thesis by simp
  next
    case True
    define t0 where "t0 = probe h (key v) n"
    have t0: "t0 < length (table h)" unfolding t0_def using C(1) by (rule probe_less)
    have h': "h' = h\<lparr>used := used h + 1, table := (table h)[t0 := v]\<rparr>"
      using res True by (simp add: t0_def)
    have pr: "probe h' = probe h" by (simp add: h' probe_def fun_eq_iff)
    have empty: "key (table h ! t0) = kOpen" using True by (simp add: t0_def)
    have keep: "key (table h ! s) \<noteq> kOpen \<Longrightarrow> table h' ! s = table h ! s" for s
      using empty by (cases "s = t0") (auto simp: h')
    show ?thesis
      unfolding probe_inv_def
    proof (intro allI impI)
      fix t assume t: "t < length (table h')" and occ: "key (table h' ! t) \<noteq> kOpen"
      show "\<exists>n. probe h' (key (table h' ! t)) n = t \<and>
             (\<forall>m<n. key (table h' ! probe h' (key (table h' ! t)) m) \<noteq> kOpen \<and>
                    key (table h' ! probe h' (key (table h' ! t)) m) \<noteq> key (table h' ! t))"
      proof (cases "t = t0")
        case True
        then have tv: "table h' ! t = v" using t0 by (simp add: h')
        have "\<forall>m<n. key (table h' ! probe h (key v) m) \<noteq> kOpen \<and>
                     key (table h' ! probe h (key v) m) \<noteq> key v"
          using miss keep by auto
        then show ?thesis
          unfolding pr tv using True by (intro exI [of _ n]) (simp add: t0_def)
      next
        case False
        then have same: "table h' ! t = table h ! t" by (simp add: h')
        with t occ have "t < length (table h)" "key (table h ! t) \<noteq> kOpen"
          by (simp_all add: h')
        with inv obtain n1 where n1: "probe h (key (table h ! t)) n1 = t"
          and m1: "\<forall>m<n1. key (table h ! probe h (key (table h ! t)) m) \<noteq> kOpen \<and>
                    key (table h ! probe h (key (table h ! t)) m) \<noteq> key (table h ! t)"
          unfolding probe_inv_def by blast
        have "\<forall>m<n1. key (table h' ! probe h (key (table h ! t)) m) \<noteq> kOpen \<and>
                    key (table h' ! probe h (key (table h ! t)) m) \<noteq> key (table h ! t)"
          using m1 keep by auto
        then show ?thesis
          unfolding pr same using n1 by (intro exI [of _ n1]) simp
      qed
    qed
  qed
qed

lemma built_probe_inv:
  assumes "built h"
  shows "length (table h) = 2 ^ k \<Longrightarrow> k \<le> 32 \<Longrightarrow> probe_inv h"
  using assms
proof (induction h rule: built.induct)
  case (fresh s c)
  then show ?case by (simp add: probe_inv_def GridVert_default_def)
next
  case (Insert h v h')
  from Insert_Some [OF Insert.hyps(3)] Insert.prems
  have C: "length (table h) = 2 ^ k" "k \<le> 32" by simp_all
  from Insert.IH [OF C] have "probe_inv h" .
  then show ?case using Insert.hyps(3) by (rule probe_inv_Insert [OF C])
qed

lemma built_empty_default:
  assumes "built h"
  shows "t < length (table h) \<Longrightarrow> key (table h ! t) = kOpen \<Longrightarrow> table h ! t = GridVert_default"
  using assms
proof (induction h arbitrary: t rule: built.induct)
  case (fresh s c)
  then show ?case by simp
next
  case (Insert h v h')
  have "Insert_loop h v (first_idx h (key v)) = Some h'"
    using Insert.hyps(3) by (simp add: Insert_def first_idx_def)
  from Insert_loop_Some [OF this] obtain t0 where
    t0: "t0 < length (table h)"
    and res: "h' = h\<lparr>used := used h + 1, table := (table h)[t0 := v]\<rparr> \<or> h' = h"
    by (auto split: if_splits)
  from res show ?case
  proof
    assume "h' = h"
    with Insert.IH Insert.prems show ?thesis by simp
  next
    assume h': "h' = h\<lparr>used := used h + 1, table := (table h)[t0 := v]\<rparr>"
    show ?thesis
    proof (cases "t = t0")
      case True
      with t0 have "table h' ! t = v" by (simp add: h')
      with Insert.prems(2) Insert.hyps(2) show ?thesis by simp
    next
      case False
      then have "table h' ! t = table h ! t" by (simp add: h')
      with Insert.IH [of t] Insert.prems show ?thesis by (simp add: h')
    qed
  qed
qed

lemma probe_inv_unique:
  assumes inv: "probe_inv h" and "s < length (table h)" "t < length (table h)"
    and "key (table h ! s) = key (table h ! t)" "key (table h ! s) \<noteq> kOpen"
  shows "s = t"
proof -
  define key0 where "key0 = key (table h ! s)"
  from inv assms obtain n where n: "probe h key0 n = s"
    and mn: "\<forall>m<n. key (table h ! probe h key0 m) \<noteq> key0"
    unfolding probe_inv_def key0_def by blast
  from inv assms obtain n' where n': "probe h key0 n' = t"
    and mn': "\<forall>m<n'. key (table h ! probe h key0 m) \<noteq> key0"
    unfolding probe_inv_def key0_def by metis
  have "\<not> n < n'" using mn' n by (auto simp: key0_def)
  moreover have "\<not> n' < n" using mn n' assms(4) by (auto simp: key0_def)
  ultimately have "n = n'" by simp
  with n n' show ?thesis by simp
qed

text \<open>
  Claim C7: for a table built by \<^verbatim>\<open>Insert\<close> whose capacity is a power of two (an \<^verbatim>\<open>int\<close>, so
  at most \<open>2\<^sup>3\<^sup>0\<close>), whose step is coprime to the capacity and which has an empty slot, the
  probe loop of \<^verbatim>\<open>operator[]\<close> terminates; it returns the stored record with the given key
  when there is one, and the default record otherwise.
\<close>

theorem Lookup_correct:
  assumes b: "built h" and C: "length (table h) = 2 ^ k" and k: "k \<le> 30"
    and g: "gcd (unat (step h)) (2 ^ k) = 1"
    and e: "\<exists>t<2 ^ k. key (table h ! t) = kOpen"
  shows "\<exists>v. Lookup h key0 = Some v \<and>
           (\<forall>t<2 ^ k. key (table h ! t) = key0 \<longrightarrow> table h ! t = v) \<and>
           ((\<forall>t<2 ^ k. key (table h ! t) \<noteq> key0) \<longrightarrow> v = GridVert_default)"
proof -
  have k32: "k \<le> 32" using k by simp
  have inv: "probe_inv h" using b C k32 by (rule built_probe_inv)
  have d: "\<forall>t<2 ^ k. key (table h ! t) = kOpen \<longrightarrow> table h ! t = GridVert_default"
    using built_empty_default [OF b] C by simp
  from e obtain t0 where t0: "t0 < 2 ^ k" "key (table h ! t0) = kOpen" by blast
  from probe_surj [OF C g t0(1), of key0] obtain n1 where "probe h key0 n1 = t0" by blast
  with t0 have "key (table h ! probe h key0 n1) = key0 \<or> key (table h ! probe h key0 n1) = kOpen"
    by simp
  from first_hit [of "\<lambda>n. key (table h ! probe h key0 n) = key0 \<or>
      key (table h ! probe h key0 n) = kOpen", OF this]
  obtain n where hit: "key (table h ! probe h key0 n) = key0 \<or> key (table h ! probe h key0 n) = kOpen"
    and miss: "\<forall>m<n. key (table h ! probe h key0 m) \<noteq> key0 \<and>
               key (table h ! probe h key0 m) \<noteq> kOpen"
    by auto
  define v where "v = table h ! probe h key0 n"
  have L: "Lookup h key0 = Some v"
    unfolding v_def using C k32 hit miss by (rule Lookup_first)
  have pl: "probe h key0 n < 2 ^ k" using probe_less [OF C, of key0 n] C by simp
  have found: "table h ! t = v" if t: "t < 2 ^ k" and kt: "key (table h ! t) = key0" for t
  proof (cases "key0 = kOpen")
    case True
    with hit have "key v = kOpen" by (auto simp: v_def)
    with d pl have "v = GridVert_default" by (simp add: v_def)
    moreover from d t kt True have "table h ! t = GridVert_default" by simp
    ultimately show ?thesis by simp
  next
    case False
    from inv t kt False C obtain n2 where n2: "probe h key0 n2 = t"
      and m2: "\<forall>m<n2. key (table h ! probe h key0 m) \<noteq> kOpen \<and>
                    key (table h ! probe h key0 m) \<noteq> key0"
      unfolding probe_inv_def by (metis (no_types, lifting))
    have "\<not> n < n2" using m2 hit by auto
    moreover have "\<not> n2 < n" using miss n2 kt by auto
    ultimately have "n = n2" by simp
    with n2 show ?thesis by (simp add: v_def)
  qed
  have absent: "v = GridVert_default" if "\<forall>t<2 ^ k. key (table h ! t) \<noteq> key0"
  proof -
    from that pl have "key (table h ! probe h key0 n) \<noteq> key0" by simp
    with hit have "key (table h ! probe h key0 n) = kOpen" by simp
    with d pl show ?thesis by (simp add: v_def)
  qed
  from L found absent show ?thesis by blast
qed

lemma gcd_odd_pow2: "odd n \<Longrightarrow> gcd (n::nat) (2 ^ k) = 1"
  by (simp add: coprime_iff_gcd_eq_1 [symmetric])

lemma replicate_4: "replicate 4 x = [x, x, x, x]"
  by (simp add: numeral_eq_Suc)

lemma HashTable_4: "HashTable 4 s =
    \<lparr>step = s, table = [GridVert_default, GridVert_default, GridVert_default, GridVert_default],
     used = 0\<rparr>"
  by (simp add: HashTable_def replicate_4 bit_length.simps)

lemma built_example:
  "built \<lparr>step = 127, table = [GridVert_default, example_vert 5, GridVert_default,
             GridVert_default], used = 1\<rparr>"
proof -
  have 1: "built (HashTable 4 127)" unfolding HashTable_4 using built.fresh [of 127 4]
    by (simp add: replicate_4)
  have 2: "key (example_vert 5) \<noteq> kOpen"
    by (simp add: example_vert_def kOpen_def)
  have 3: "Insert (HashTable 4 127) (example_vert 5) =
    Some \<lparr>step = 127, table = [GridVert_default, example_vert 5, GridVert_default,
             GridVert_default], used = 1\<rparr>"
    by (simp add: HashTable_4 Insert_def Insert_loop.simps Size_def
      example_vert_def GridVert_default_def kOpen_def to_Uint64_def Let_def)
  from 1 2 3 show ?thesis by (rule built.Insert)
qed

lemma less_4_cases: "t < 4 \<Longrightarrow> t = 0 \<or> t = 1 \<or> t = 2 \<or> t = (3::nat)"
  by auto

text \<open>
  The table of capacity 4 that \<^verbatim>\<open>Insert\<close> builds from the record with key 5: the lookup of key 5
  returns this record, and the lookup of key 9, which starts at the same slot, returns the
  default record.
\<close>

theorem Lookup_correct_witness:
  "Lookup \<lparr>step = 127, table = [GridVert_default, example_vert 5, GridVert_default,
             GridVert_default], used = 1\<rparr> 5 = Some (example_vert 5) \<and>
   Lookup \<lparr>step = 127, table = [GridVert_default, example_vert 5, GridVert_default,
             GridVert_default], used = 1\<rparr> 9 = Some GridVert_default"
proof -
  define h where "h = \<lparr>step = 127, table = [GridVert_default, example_vert 5, GridVert_default,
             GridVert_default], used = 1\<rparr>"
  have b: "built h" unfolding h_def by (rule built_example)
  have C: "length (table h) = 2 ^ 2" by (simp add: h_def)
  have g: "gcd (unat (step h)) (2 ^ 2) = 1"
    using gcd_odd_pow2 [of 127 2] by (simp add: h_def)
  have e: "\<exists>t<2 ^ 2. key (table h ! t) = kOpen"
    by (rule exI [of _ 0]) (simp add: h_def GridVert_default_def)
  from Lookup_correct [OF b C _ g e, of 5] obtain v where
    v: "Lookup h 5 = Some v" and s: "\<forall>t<2 ^ 2. key (table h ! t) = 5 \<longrightarrow> table h ! t = v"
    by auto
  from s [rule_format, of 1] have "v = example_vert 5"
    by (simp add: h_def example_vert_def)
  with v have 1: "Lookup h 5 = Some (example_vert 5)" by simp
  from Lookup_correct [OF b C _ g e, of 9] obtain w where
    w: "Lookup h 9 = Some w"
    and a: "(\<forall>t<2 ^ 2. key (table h ! t) \<noteq> 9) \<longrightarrow> w = GridVert_default"
    by auto
  have "\<forall>t<2 ^ 2. key (table h ! t) \<noteq> 9"
    by (auto dest!: less_4_cases simp: h_def example_vert_def GridVert_default_def kOpen_def)
  with a w have 2: "Lookup h 9 = Some GridVert_default" by simp
  from 1 2 show ?thesis by (simp add: h_def)
qed

subsection \<open>The vertex pass\<close>

text \<open>
  Claim C3: with \<open>d = sdf (Position idx) - level\<close>, \<open>BoundedSDF idx\<close> is \<open>min d 0\<close> when a
  component of \<open>idx.xyz\<close> is at most 0, or at least the grid size of its axis, or when
  \<open>idx.w = 1\<close> and a component is at least the grid size minus one; otherwise it is \<open>d\<close>.
\<close>

theorem BoundedSDF_clamp:
  assumes "gridSize p = (gx, gy, gz)" and "d = sdf p (Position p (x, y, z, w)) - level p"
  shows "BoundedSDF p (x, y, z, w) =
     (if (x \<le> 0 \<or> y \<le> 0 \<or> z \<le> 0) \<or> (x \<ge> gx \<or> y \<ge> gy \<or> z \<ge> gz) \<or>
         (w = 1 \<and> (x \<ge> gx - 1 \<or> y \<ge> gy - 1 \<or> z \<ge> gz - 1))
      then min d 0 else d)"
  using assms by (auto simp: BoundedSDF_def Let_def glm_min_def min_def)

text \<open>A half-lattice vertex next to the upper bound is clamped, the corner-lattice vertex with the
  same coordinates is not.\<close>

theorem BoundedSDF_clamp_witness:
  "BoundedSDF \<lparr>sdf = (\<lambda>v. 1), origin = (0, 0, 0), gridSize = (3, 3, 3), spacing = (1, 1, 1), level = 0\<rparr>
      (2, 1, 1, 1) = 0 \<and>
   BoundedSDF \<lparr>sdf = (\<lambda>v. 1), origin = (0, 0, 0), gridSize = (3, 3, 3), spacing = (1, 1, 1), level = 0\<rparr>
      (2, 1, 1, 0) = 1"
  using BoundedSDF_clamp [of "\<lparr>sdf = (\<lambda>v. 1), origin = (0, 0, 0), gridSize = (3, 3, 3), spacing = (1, 1, 1), level = 0\<rparr>" 3 3 3 1 2 1 1 1]
    BoundedSDF_clamp [of "\<lparr>sdf = (\<lambda>v. 1), origin = (0, 0, 0), gridSize = (3, 3, 3), spacing = (1, 1, 1), level = 0\<rparr>" 3 3 3 1 2 1 1 0]
  by simp

lemma ComputeVerts_edge_same:
  "\<not> crossing p gi d i \<Longrightarrow> ComputeVerts_edge p gi pos d i s = Inr s"
  by (cases s) (simp add: ComputeVerts_edge_def crossing_def Let_def)

lemma ComputeVerts_edge_cross:
  assumes "crossing p gi d i" "0 \<le> vertIndex st" "nat (vertIndex st) < length (vertPos st)"
  shows "\<exists>vp. ComputeVerts_edge p gi pos d i (keep, ev, st) =
           Inr (True, ev[i := vertIndex st], st\<lparr>vertIndex := vertIndex st + 1, vertPos := vp\<rparr>) \<and>
           length vp = length (vertPos st)"
  using assms by (auto simp: ComputeVerts_edge_def crossing_def Let_def)

lemma edges_loop:
  assumes "distinct is" "\<forall>i\<in>set is. i < length ev" "0 \<le> vertIndex st"
    "nat (vertIndex st) + length is \<le> length (vertPos st)"
  shows "\<exists>keep' ev' st'. for_each (ComputeVerts_edge p gi pos d) is (keep, ev, st) = Inr (keep', ev', st') \<and>
     length ev' = length ev \<and> (\<forall>j. j \<notin> set is \<longrightarrow> ev' ! j = ev ! j) \<and>
     (\<forall>i\<in>set is. if crossing p gi d i then vertIndex st \<le> ev' ! i \<and> ev' ! i < vertIndex st'
                  else ev' ! i = ev ! i) \<and>
     vertIndex st' = vertIndex st + int (length (filter (crossing p gi d) is)) \<and>
     keep' = (keep \<or> (\<exists>i\<in>set is. crossing p gi d i)) \<and>
     gridVerts st' = gridVerts st \<and> length (vertPos st') = length (vertPos st)"
  using assms
proof (induction "is" arbitrary: keep ev st)
  case Nil
  then show ?case by simp
next
  case (Cons a rest)
  show ?case
  proof (cases "crossing p gi d a")
    case False
    have step: "ComputeVerts_edge p gi pos d a (keep, ev, st) = Inr (keep, ev, st)"
      using False by (rule ComputeVerts_edge_same)
    from Cons.prems have "distinct rest" "\<forall>i\<in>set rest. i < length ev" "0 \<le> vertIndex st"
      "nat (vertIndex st) + length rest \<le> length (vertPos st)" by auto
    from Cons.IH [OF this, of keep] obtain keep' ev' st' where
      r: "for_each (ComputeVerts_edge p gi pos d) rest (keep, ev, st) = Inr (keep', ev', st')"
      and l: "length ev' = length ev" and o: "\<forall>j. j \<notin> set rest \<longrightarrow> ev' ! j = ev ! j"
      and c: "\<forall>i\<in>set rest. if crossing p gi d i then vertIndex st \<le> ev' ! i \<and> ev' ! i < vertIndex st'
                  else ev' ! i = ev ! i"
      and v: "vertIndex st' = vertIndex st + int (length (filter (crossing p gi d) rest))"
      and k: "keep' = (keep \<or> (\<exists>i\<in>set rest. crossing p gi d i))"
      and g: "gridVerts st' = gridVerts st" "length (vertPos st') = length (vertPos st)"
      by blast
    have a: "ev' ! a = ev ! a" using o Cons.prems(1) by simp
    show ?thesis
      apply (rule exI [of _ keep'], rule exI [of _ ev'], rule exI [of _ st'])
      using r l o c v k g a False by (simp add: step)
  next
    case True
    from Cons.prems have room: "0 \<le> vertIndex st" "nat (vertIndex st) < length (vertPos st)"
      by auto
    from ComputeVerts_edge_cross [OF True room, of pos keep ev] obtain vp where
      step: "ComputeVerts_edge p gi pos d a (keep, ev, st) =
           Inr (True, ev[a := vertIndex st], st\<lparr>vertIndex := vertIndex st + 1, vertPos := vp\<rparr>)"
      and lvp: "length vp = length (vertPos st)" by blast
    define st1 where "st1 = st\<lparr>vertIndex := vertIndex st + 1, vertPos := vp\<rparr>"
    define ev1 where "ev1 = ev[a := vertIndex st]"
    have p1: "distinct rest" "\<forall>i\<in>set rest. i < length ev1" "0 \<le> vertIndex st1"
      "nat (vertIndex st1) + length rest \<le> length (vertPos st1)"
      using Cons.prems lvp by (auto simp: st1_def ev1_def nat_add_distrib)
    from Cons.IH [OF p1, of True] obtain keep' ev' st' where
      r: "for_each (ComputeVerts_edge p gi pos d) rest (True, ev1, st1) = Inr (keep', ev', st')"
      and l: "length ev' = length ev1" and o: "\<forall>j. j \<notin> set rest \<longrightarrow> ev' ! j = ev1 ! j"
      and c: "\<forall>i\<in>set rest. if crossing p gi d i then vertIndex st1 \<le> ev' ! i \<and> ev' ! i < vertIndex st'
                  else ev' ! i = ev1 ! i"
      and v: "vertIndex st' = vertIndex st1 + int (length (filter (crossing p gi d) rest))"
      and k: "keep' = (True \<or> (\<exists>i\<in>set rest. crossing p gi d i))"
      and g: "gridVerts st' = gridVerts st1" "length (vertPos st') = length (vertPos st1)"
      by blast
    have a: "ev' ! a = vertIndex st"
      using o Cons.prems(1,2) by (simp add: ev1_def)
    have c': "\<forall>i\<in>set rest. if crossing p gi d i then vertIndex st \<le> ev' ! i \<and> ev' ! i < vertIndex st'
                  else ev' ! i = ev ! i"
    proof
      fix i assume i: "i \<in> set rest"
      then have "i \<noteq> a" using Cons.prems(1) by auto
      then have "ev1 ! i = ev ! i" by (simp add: ev1_def)
      with c i show "if crossing p gi d i then vertIndex st \<le> ev' ! i \<and> ev' ! i < vertIndex st'
                  else ev' ! i = ev ! i"
        by (auto simp: st1_def split: if_splits)
    qed
    have o': "\<forall>j. j \<notin> set (a # rest) \<longrightarrow> ev' ! j = ev ! j"
      using o by (simp add: ev1_def)
    show ?thesis
      apply (rule exI [of _ keep'], rule exI [of _ ev'], rule exI [of _ st'])
      using r l o' c' k g a True lvp
      by (auto simp: step st1_def ev1_def v)
  qed
qed

lemma Full_call: "Full (gridVerts st) \<Longrightarrow> ComputeVerts_call p mortonCode st = Inr st"
  by (simp add: ComputeVerts_call_def)

text \<open>
  Claim C4, as stated, fails: \<^verbatim>\<open>Insert\<close> does not test fullness. On a table of capacity 4
  with three records, which is full, it stores a fourth record and counts it.
\<close>

theorem Insert_on_Full_table_inserts:
  "Full \<lparr>step = 127, table = [example_vert 0, example_vert 1, example_vert 2, GridVert_default],
         used = 3\<rparr> \<and>
   Insert \<lparr>step = 127, table = [example_vert 0, example_vert 1, example_vert 2, GridVert_default],
           used = 3\<rparr> (example_vert 3) =
     Some \<lparr>step = 127, table = [example_vert 0, example_vert 1, example_vert 2, example_vert 3],
           used = 4\<rparr>"
  by (simp add: Full_def Size_def Insert_def Insert_loop.simps example_vert_def
      GridVert_default_def kOpen_def to_Uint64_def Let_def)

text \<open>
  Claim C4, amended: once the table is full, every call of the vertex pass returns at once,
  so that no \<^verbatim>\<open>Insert\<close> is made and the slots, the used count, the vertex counter and the
  vertex buffer stay as they are.
\<close>

theorem Full_vertex_pass_unchanged:
  assumes "Full (gridVerts st)"
  shows "for_each (ComputeVerts_call p) codes st = Inr st"
  using assms by (induction codes) (simp_all add: Full_call)

text \<open>Two calls of the vertex pass on the full table of capacity 4.\<close>

theorem Full_vertex_pass_unchanged_witness:
  "for_each (ComputeVerts_call example_params) [5, 6]
     (example_state \<lparr>step = 127, table = [example_vert 0, example_vert 1, example_vert 2,
        GridVert_default], used = 3\<rparr>) =
   Inr (example_state \<lparr>step = 127, table = [example_vert 0, example_vert 1, example_vert 2,
        GridVert_default], used = 3\<rparr>)"
  by (rule Full_vertex_pass_unchanged) (simp add: example_state_def Full_def Size_def)

text \<open>
  Claim C5, as stated, fails: with the value \<open>- 1\<close> at the grid vertex \<open>(2, 2, 2, 0)\<close> and the
  value 0 at its neighbour across owned edge 1, the signs differ in the specification's
  reading, and the loop body records no crossing.
\<close>

theorem zero_and_negative_edge_records_no_crossing:
  "spec_sign 0 \<noteq> spec_sign (- 1) \<and>
   BoundedSDF example_params (2, 2, 2, 0) = - 1 \<and>
   BoundedSDF example_params (neighborIndex (2, 2, 2, 0) 1) = 0 \<and>
   ComputeVerts_edge example_params (2, 2, 2, 0) (Position example_params (2, 2, 2, 0)) (- 1) 1
     (False, [-1, -1, -1, -1, -1, -1, -1], example_state (HashTable 4 127)) =
   Inr (False, [-1, -1, -1, -1, -1, -1, -1], example_state (HashTable 4 127))"
  by (simp add: spec_sign_def BoundedSDF_def Position_def example_params_def neighborIndex_def
      Neighbors_def neighbors_def glm_min_def ComputeVerts_edge_def Let_def)

lemma less_7_cases: "i < 7 \<Longrightarrow> i \<in> set [0, 1, 2, 3, 4, 5, 6 :: nat]"
  by auto

text \<open>
  Claim C5, amended: given room for seven vertices in the buffer, the loop over the owned
  edges leaves \<open>edgeVerts[i] = - 1\<close> exactly when \<open>val > 0\<close> and \<open>distance > 0\<close> agree, a value
  of zero counting as not positive, and it allocates one vertex index for every other edge.
\<close>

theorem edge_crossing_iff_positive_differs:
  assumes "0 \<le> vertIndex st" and "nat (vertIndex st) + 7 \<le> length (vertPos st)"
  shows "\<exists>keep ev st'.
     for_each (ComputeVerts_edge p gridIndex position d) [0, 1, 2, 3, 4, 5, 6]
       (False, [-1, -1, -1, -1, -1, -1, -1], st) = Inr (keep, ev, st') \<and>
     (\<forall>i<7. (ev ! i = - 1) = ((BoundedSDF p (neighborIndex gridIndex i) > 0) = (d > 0))) \<and>
     vertIndex st' = vertIndex st +
       int (length (filter (\<lambda>i. (BoundedSDF p (neighborIndex gridIndex i) > 0) \<noteq> (d > 0))
                     [0, 1, 2, 3, 4, 5, 6]))"
proof -
  from edges_loop [where ?is = "[0, 1, 2, 3, 4, 5, 6]" and ev = "[-1, -1, -1, -1, -1, -1, -1]"
      and st = st and p = p and gi = gridIndex and d = d and pos = position and keep = False] assms
  obtain keep ev st' where
    r: "for_each (ComputeVerts_edge p gridIndex position d) [0, 1, 2, 3, 4, 5, 6]
       (False, [-1, -1, -1, -1, -1, -1, -1], st) = Inr (keep, ev, st')"
    and c: "\<forall>i\<in>set [0, 1, 2, 3, 4, 5, 6].
        if crossing p gridIndex d i then vertIndex st \<le> ev ! i \<and> ev ! i < vertIndex st'
        else ev ! i = [-1, -1, -1, -1, -1, -1, -1] ! i"
    and v: "vertIndex st' = vertIndex st +
        int (length (filter (crossing p gridIndex d) [0, 1, 2, 3, 4, 5, 6]))"
    by auto
  have "(ev ! i = - 1) = ((BoundedSDF p (neighborIndex gridIndex i) > 0) = (d > 0))"
    if "i < 7" for i
  proof -
    from that have i: "i \<in> set [0, 1, 2, 3, 4, 5, 6 :: nat]" by (rule less_7_cases)
    have "[-1, -1, -1, -1, -1, -1, -1] ! i = (- 1 :: int)"
      using i by auto
    with c i assms(1) show ?thesis
      by (cases "crossing p gridIndex d i") (auto simp: crossing_def)
  qed
  moreover have "crossing p gridIndex d =
      (\<lambda>i. (BoundedSDF p (neighborIndex gridIndex i) > 0) \<noteq> (d > 0))"
    by (simp add: crossing_def fun_eq_iff)
  ultimately show ?thesis using r v by auto
qed

text \<open>The loop at the grid vertex \<open>(2, 2, 2, 0)\<close> of the example.\<close>

theorem edge_crossing_iff_positive_differs_witness:
  "\<exists>keep ev st'.
     for_each (ComputeVerts_edge example_params (2, 2, 2, 0) (3 / 2, 3 / 2, 3 / 2) (- 1))
       [0, 1, 2, 3, 4, 5, 6]
       (False, [-1, -1, -1, -1, -1, -1, -1], example_state (HashTable 4 127)) = Inr (keep, ev, st') \<and>
     (\<forall>i<7. (ev ! i = - 1) =
        ((BoundedSDF example_params (neighborIndex (2, 2, 2, 0) i) > 0) = ((- 1 :: real) > 0))) \<and>
     vertIndex st' = vertIndex (example_state (HashTable 4 127)) +
       int (length (filter (\<lambda>i. (BoundedSDF example_params (neighborIndex (2, 2, 2, 0) i) > 0) \<noteq>
                                 ((- 1 :: real) > 0)) [0, 1, 2, 3, 4, 5, 6]))"
  by (rule edge_crossing_iff_positive_differs) (simp_all add: example_state_def)

lemma finite_occupied: "finite (occupied h)"
  by (simp add: occupied_def)

lemma card_occupied_le: "card (occupied h) \<le> length (table h)"
proof -
  have "occupied h \<subseteq> {..<length (table h)}" by (auto simp: occupied_def)
  then have "card (occupied h) \<le> card {..<length (table h)}"
    by (intro card_mono) simp_all
  then show ?thesis by simp
qed

lemma empty_slot_exists:
  assumes "card (occupied h) < length (table h)"
  shows "\<exists>t<length (table h). key (table h ! t) = kOpen"
proof (rule ccontr)
  assume "\<not> ?thesis"
  then have "occupied h = {..<length (table h)}" by (auto simp: occupied_def)
  then have "card (occupied h) = length (table h)" by simp
  with assms show False by simp
qed

lemma Full_iff:
  assumes "length (table h) = 2 ^ k" "k \<le> 30" "unat (used h) = card (occupied h)"
  shows "Full h \<longleftrightarrow> 2 ^ k < 2 * card (occupied h)"
proof -
  have le: "card (occupied h) \<le> 2 ^ k" using card_occupied_le [of h] assms(1) by simp
  have p: "(2::nat) ^ k \<le> 2 ^ 30" using assms(2) by (rule power_increasing) simp
  then have c: "card (occupied h) \<le> 2 ^ 30" using le by simp
  have "unat (used h * 2) = 2 * card (occupied h)"
    using c assms(3) by (simp add: unat_word_ariths)
  moreover have "unat (word_of_int (Size h) :: uint32) = length (table h)"
  proof -
    have "(word_of_int (Size h) :: uint32) = word_of_nat (length (table h))"
      by (simp add: Size_def)
    moreover have "length (table h) < 2 ^ 32" using p assms(1) by simp
    ultimately show ?thesis by (simp only: unat_of_nat) simp
  qed
  ultimately show ?thesis using assms(1) by (simp add: Full_def word_less_nat_alt)
qed

lemma word_of_nat_inj64:
  assumes "(word_of_nat m :: Uint64) = word_of_nat n" "m < 2 ^ 64" "n < 2 ^ 64"
  shows "m = n"
proof -
  from assms(1) have "unat (word_of_nat m :: Uint64) = unat (word_of_nat n :: Uint64)" by simp
  with assms(2,3) show ?thesis by (simp add: unat_of_nat)
qed

lemma word_of_nat_not_kOpen:
  assumes "n < 2 ^ 64 - 1"
  shows "(word_of_nat n :: Uint64) \<noteq> kOpen"
proof
  assume "(word_of_nat n :: Uint64) = kOpen"
  then have "unat (word_of_nat n :: Uint64) = unat (- 1 :: Uint64)" by (simp add: kOpen_def)
  with assms show False by (simp add: unat_of_nat unsigned_minus_1_eq_mask mask_eq_exp_minus_1)
qed

lemma Insert_new:
  assumes C: "length (table h) = 2 ^ k" and k: "k \<le> 30" and o: "odd (unat (step h))"
    and room: "card (occupied h) < 2 ^ k" and nk: "key v \<noteq> kOpen"
    and new: "\<forall>t\<in>occupied h. key (table h ! t) \<noteq> key v"
  shows "\<exists>t0<2 ^ k. t0 \<notin> occupied h \<and>
           Insert h v = Some (h\<lparr>used := used h + 1, table := (table h)[t0 := v]\<rparr>)"
proof -
  have k32: "k \<le> 32" using k by simp
  have g: "gcd (unat (step h)) (2 ^ k) = 1" using o by (rule gcd_odd_pow2)
  from empty_slot_exists [of h] room C obtain t where t: "t < 2 ^ k" "key (table h ! t) = kOpen"
    by auto
  from probe_surj [OF C g t(1), of "key v"] obtain n1 where "probe h (key v) n1 = t" by blast
  with t have "key (table h ! probe h (key v) n1) = key v \<or>
      key (table h ! probe h (key v) n1) = kOpen" by simp
  from first_hit [of "\<lambda>n. key (table h ! probe h (key v) n) = key v \<or>
      key (table h ! probe h (key v) n) = kOpen", OF this]
  obtain n where hit: "key (table h ! probe h (key v) n) = key v \<or>
      key (table h ! probe h (key v) n) = kOpen"
    and miss: "\<forall>m<n. key (table h ! probe h (key v) m) \<noteq> key v \<and>
               key (table h ! probe h (key v) m) \<noteq> kOpen"
    by auto
  define t0 where "t0 = probe h (key v) n"
  have t0: "t0 < 2 ^ k" unfolding t0_def using probe_less [OF C, of "key v" n] C by simp
  have e: "key (table h ! t0) = kOpen"
  proof (rule ccontr)
    assume a: "key (table h ! t0) \<noteq> kOpen"
    then have "t0 \<in> occupied h" using t0 C by (simp add: occupied_def)
    with new have "key (table h ! t0) \<noteq> key v" by blast
    with a hit show False by (simp add: t0_def)
  qed
  then have "t0 \<notin> occupied h" by (simp add: occupied_def)
  moreover have "Insert h v = Some (h\<lparr>used := used h + 1, table := (table h)[t0 := v]\<rparr>)"
    using Insert_first [OF C k32 hit miss] e by (simp add: t0_def)
  ultimately show ?thesis using t0 by blast
qed

lemma occupied_update:
  assumes "t0 < length (table h)" "key v \<noteq> kOpen"
  shows "occupied (h\<lparr>used := u, table := (table h)[t0 := v]\<rparr>) = insert t0 (occupied h)"
  using assms by (auto simp: occupied_def nth_list_update)

lemma pass_inv_mono: "pass_inv k n st \<Longrightarrow> pass_inv k (Suc n) st"
  by (auto simp: pass_inv_def less_Suc_eq)

lemma ComputeVerts_call_inv:
  assumes inv: "pass_inv k n st" and k: "k \<le> 28" and n: "n < 2 ^ 64 - 1"
  shows "\<exists>st'. ComputeVerts_call p (word_of_nat n) st = Inr st' \<and> pass_inv k (Suc n) st'"
proof -
  define h where "h = gridVerts st"
  define c where "c = card (occupied h)"
  from inv have C: "length (table h) = 2 ^ k" and o: "odd (unat (step h))"
    and u: "unat (used h) = c"
    and keys: "\<forall>t\<in>occupied h. \<exists>m<n. key (table h ! t) = word_of_nat m"
    and v0: "0 \<le> vertIndex st" and v1: "vertIndex st \<le> 7 * int c"
    and lp: "length (vertPos st) = 7 * 2 ^ k"
    by (simp_all add: pass_inv_def h_def c_def)
  have k30: "k \<le> 30" using k by simp
  have cle: "c \<le> 2 ^ k" using card_occupied_le [of h] C by (simp add: c_def)
  have full: "Full h \<longleftrightarrow> 2 ^ k < 2 * c"
    using Full_iff [OF C k30] u by (simp add: c_def)
  show ?thesis
  proof (cases "Full h")
    case True
    then have "ComputeVerts_call p (word_of_nat n) st = Inr st"
      by (simp add: ComputeVerts_call_def h_def)
    with inv show ?thesis by (simp add: pass_inv_mono)
  next
    case nf: False
    define gi where "gi = DecodeMorton (word_of_nat n :: Uint64)"
    show ?thesis
    proof (cases "any3 (greaterThan (ivec3_of gi) (gridSize p))")
      case True
      then have "ComputeVerts_call p (word_of_nat n) st = Inr st"
        using nf by (simp add: ComputeVerts_call_def h_def gi_def Let_def)
      with inv show ?thesis by (simp add: pass_inv_mono)
    next
      case inrange: False
      have c1: "c + 1 \<le> 2 ^ k"
      proof (cases "k = 0")
        case True
        with nf full show ?thesis by simp
      next
        case False
        then obtain j where j: "k = Suc j" by (cases k) auto
        from nf full j have "c \<le> 2 ^ j" by simp
        moreover have "1 \<le> (2::nat) ^ j" by (rule one_le_power) simp
        ultimately have "c + 1 \<le> 2 ^ j + 2 ^ j" by (rule add_mono)
        then show ?thesis using j by simp
      qed
      have room: "nat (vertIndex st) + length [0, 1, 2, 3, 4, 5, 6 :: nat] \<le> length (vertPos st)"
        using v0 v1 c1 lp by simp
      define pos where "pos = Position p gi"
      define d where "d = BoundedSDF p gi"
      from edges_loop [where ?is = "[0, 1, 2, 3, 4, 5, 6]" and ev = "[-1, -1, -1, -1, -1, -1, -1]"
          and st = st and p = p and gi = gi and d = d and pos = pos and keep = False, OF _ _ v0 room]
      obtain keep ev st1 where
        r: "for_each (ComputeVerts_edge p gi pos d) [0, 1, 2, 3, 4, 5, 6]
              (False, [-1, -1, -1, -1, -1, -1, -1], st) = Inr (keep, ev, st1)"
        and vi: "vertIndex st1 = vertIndex st +
            int (length (filter (crossing p gi d) [0, 1, 2, 3, 4, 5, 6]))"
        and kp: "keep = (False \<or> (\<exists>i\<in>set [0, 1, 2, 3, 4, 5, 6]. crossing p gi d i))"
        and gv: "gridVerts st1 = gridVerts st"
        and lv: "length (vertPos st1) = length (vertPos st)"
        by auto
      have vle: "vertIndex st1 \<le> vertIndex st + 7"
      proof -
        have "length (filter (crossing p gi d) [0, 1, 2, 3, 4, 5, 6]) \<le> length [0, 1, 2, 3, 4, 5, 6 :: nat]"
          by (rule length_filter_le)
        with vi show ?thesis by simp
      qed
      have vge: "vertIndex st \<le> vertIndex st1" using vi by simp
      show ?thesis
      proof (cases keep)
        case False
        then have "filter (crossing p gi d) [0, 1, 2, 3, 4, 5, 6] = []"
          using kp by (simp add: filter_empty_conv)
        with vi have same: "vertIndex st1 = vertIndex st" by simp
        have "ComputeVerts_call p (word_of_nat n) st = Inr st1"
          using nf inrange r False
          by (simp add: ComputeVerts_call_def h_def [symmetric] gi_def [symmetric] Let_def
              pos_def [symmetric] d_def [symmetric])
        moreover have "pass_inv k (Suc n) st1"
          using inv gv lv same by (auto simp: pass_inv_def less_Suc_eq)
        ultimately show ?thesis by blast
      next
        case True
        define v where "v = \<lparr>key = word_of_nat n, distance = Some d, edgeVerts = ev\<rparr>"
        have nk: "key v \<noteq> kOpen" using word_of_nat_not_kOpen [OF n] by (simp add: v_def)
        have new: "\<forall>t\<in>occupied h. key (table h ! t) \<noteq> key v"
        proof
          fix t assume "t \<in> occupied h"
          with keys obtain m where m: "m < n" "key (table h ! t) = word_of_nat m" by blast
          show "key (table h ! t) \<noteq> key v"
          proof
            assume "key (table h ! t) = key v"
            with m have "(word_of_nat m :: Uint64) = word_of_nat n" by (simp add: v_def)
            then have "m = n" using m(1) n by (intro word_of_nat_inj64) simp_all
            with m(1) show False by simp
          qed
        qed
        have "c < 2 ^ k" using c1 by simp
        from Insert_new [OF C k30 o this [unfolded c_def] nk new]
        obtain t0 where t0: "t0 < 2 ^ k" "t0 \<notin> occupied h"
          and ins: "Insert h v = Some (h\<lparr>used := used h + 1, table := (table h)[t0 := v]\<rparr>)"
          by blast
        define h' where "h' = h\<lparr>used := used h + 1, table := (table h)[t0 := v]\<rparr>"
        have occ: "occupied h' = insert t0 (occupied h)"
          unfolding h'_def using t0(1) C nk by (intro occupied_update) simp_all
        have card': "card (occupied h') = c + 1"
          using t0(2) finite_occupied [of h] by (simp add: occ c_def)
        have "(2::nat) ^ k \<le> 2 ^ 28" using k by (rule power_increasing) simp
        then have "c + 1 < 2 ^ 32" using c1 by simp
        then have used': "unat (used h') = c + 1"
          using u by (simp add: h'_def unat_word_ariths)
        have call: "ComputeVerts_call p (word_of_nat n) st = Inr (st1\<lparr>gridVerts := h'\<rparr>)"
          using nf inrange r True ins gv
          by (simp add: ComputeVerts_call_def h_def [symmetric] gi_def [symmetric] Let_def
              pos_def [symmetric] d_def [symmetric] v_def [symmetric] h'_def [symmetric])
        have keys': "\<forall>t\<in>occupied h'. \<exists>m<Suc n. key (table h' ! t) = word_of_nat m"
        proof
          fix t assume "t \<in> occupied h'"
          then consider "t = t0" | "t \<in> occupied h" "t \<noteq> t0" using occ t0(2) by auto
          then show "\<exists>m<Suc n. key (table h' ! t) = word_of_nat m"
          proof cases
            case 1
            then have "key (table h' ! t) = word_of_nat n"
              using t0(1) C by (simp add: h'_def v_def)
            then show ?thesis by blast
          next
            case 2
            then have "table h' ! t = table h ! t" by (simp add: h'_def)
            with keys 2(1) show ?thesis by (auto simp: less_Suc_eq)
          qed
        qed
        have "pass_inv k (Suc n) (st1\<lparr>gridVerts := h'\<rparr>)"
          unfolding pass_inv_def
          using C o used' card' keys' v0 v1 vle vge lv lp
          by (simp add: h'_def [symmetric]) (simp add: h'_def)
        with call show ?thesis by blast
      qed
    qed
  qed
qed

lemma for_each_inv:
  assumes "pass_inv k n st" "k \<le> 28" "N \<le> 2 ^ 64 - 1" "n \<le> N"
  shows "\<exists>st'. for_each (ComputeVerts_call p) (map word_of_nat [n..<N]) st = Inr st' \<and>
           pass_inv k N st'"
  using assms(1,4)
proof (induction "N - n" arbitrary: n st)
  case 0
  then show ?case by simp
next
  case (Suc j)
  then have lt: "n < N" by simp
  then have n: "n < 2 ^ 64 - 1" using assms(3) by simp
  from ComputeVerts_call_inv [OF Suc.prems(1) assms(2) n, of p] obtain st1 where
    c: "ComputeVerts_call p (word_of_nat n) st = Inr st1" and i: "pass_inv k (Suc n) st1"
    by blast
  have "j = N - Suc n" using Suc.hyps(2) by simp
  from Suc.hyps(1) [OF this i] lt obtain st' where
    "for_each (ComputeVerts_call p) (map word_of_nat [Suc n..<N]) st1 = Inr st'"
    "pass_inv k N st'" by auto
  then show ?case using c lt by (auto simp: upt_conv_Cons)
qed

lemma fresh_state_Inr:
  assumes "fresh_state tableSize = Inr st"
  shows "st = \<lparr>vertPos = replicate (7 * 2 ^ bit_length (unat (word_of_int tableSize :: uint32) - 1))
                   (0, 0, 0), vertIndex = 0,
               gridVerts = HashTable (unat (word_of_int tableSize :: uint32)) 127\<rparr> \<and>
         (7::int) * 2 ^ bit_length (unat (word_of_int tableSize :: uint32) - 1) < 2 ^ 31"
proof -
  have "nat (2 ^ n * 7) = 7 * 2 ^ n" for n :: nat
    by (simp add: nat_mult_distrib nat_power_eq)
  with assms show ?thesis
    by (simp add: fresh_state_def Let_def Size_def HashTable_def split: if_splits)
qed

lemma fresh_state_inv:
  assumes "fresh_state tableSize = Inr st"
  shows "pass_inv (bit_length (unat (word_of_int tableSize :: uint32) - 1)) 0 st"
  using fresh_state_Inr [OF assms]
  by (simp add: pass_inv_def HashTable_def occupied_def GridVert_default_def)

text \<open>
  The sequential vertex pass over the Morton codes \<open>0, \<dots>, maxMorton\<close>, started on a freshly
  allocated table and its vertex buffer of seven entries per slot, returns without a write
  outside the buffer, and its vertex counter is at most seven times the capacity.
\<close>

lemma vertex_pass_counter_bound:
  assumes "fresh_state tableSize = Inr st"
  shows "\<exists>st'. vertex_pass p maxMorton st = Inr st' \<and>
           Size (gridVerts st') = Size (gridVerts st) \<and>
           int (length (vertPos st')) = 7 * Size (gridVerts st') \<and>
           0 \<le> vertIndex st' \<and> vertIndex st' \<le> 7 * Size (gridVerts st')"
proof -
  define k where "k = bit_length (unat (word_of_int tableSize :: uint32) - 1)"
  from fresh_state_Inr [OF assms]
  have S: "Size (gridVerts st) = 2 ^ k" and lt: "(7::int) * 2 ^ k < 2 ^ 31"
    by (simp_all add: HashTable_def Size_def k_def)
  have k: "k \<le> 28"
  proof (rule ccontr)
    assume "\<not> k \<le> 28"
    then have "29 \<le> k" by simp
    then have "(2::int) ^ 29 \<le> 2 ^ k" by (rule power_increasing) simp
    with lt show False by simp
  qed
  have N: "unat (maxMorton + 1) \<le> 2 ^ 64 - 1"
    using unsigned_less [of "maxMorton + 1", where ?'a = nat] by simp
  from for_each_inv [OF fresh_state_inv [OF assms, folded k_def] k N, of p]
  obtain st' where r: "vertex_pass p maxMorton st = Inr st'"
    and i: "pass_inv k (unat (maxMorton + 1)) st'"
    by (auto simp: vertex_pass_def)
  from i have v: "vertIndex st' \<le> 7 * int (card (occupied (gridVerts st')))"
    and len: "length (table (gridVerts st')) = 2 ^ k" and v0: "0 \<le> vertIndex st'"
    and lp: "length (vertPos st') = 7 * 2 ^ k"
    by (simp_all add: pass_inv_def)
  have b: "vertIndex st' \<le> 7 * (2::int) ^ k"
  proof -
    have "int (card (occupied (gridVerts st'))) \<le> int (2 ^ k)"
      using card_occupied_le [of "gridVerts st'"] len by simp
    then have "int (card (occupied (gridVerts st'))) \<le> (2::int) ^ k" by simp
    with v show ?thesis by linarith
  qed
  show ?thesis using r S b v0 len lp by (simp add: Size_def)
qed

lemma fresh_state_30:
  "fresh_state 30 = Inr \<lparr>vertPos = replicate 224 (0, 0, 0), vertIndex = 0,
     gridVerts = \<lparr>step = 127, table = replicate 32 GridVert_default, used = 0\<rparr>\<rparr>"
proof -
  have "unat (word_of_int 30 :: uint32) - 1 = 29" by simp
  moreover have "bit_length 29 = 5" by (simp add: bit_length.simps)
  ultimately show ?thesis by (simp add: fresh_state_def HashTable_def Let_def Size_def)
qed

subsection \<open>The triangle pass\<close>

lemma to_int_nonneg:
  fixes v m :: Uint64
  assumes "v \<le> m" "m < 2 ^ 31"
  shows "0 \<le> to_int v"
proof -
  from assms have "v < 2 ^ 31" by (rule le_less_trans)
  then have "to_int v = uint v" by (rule to_int_small)
  then show ?thesis by simp
qed

lemma Squeeze_le: "SqueezeBits3 v \<le> 0x1fffff"
  by (simp add: SqueezeBits3_def Let_def word_and_le1)

lemma DecodeMorton_nonneg: "nonneg4 (DecodeMorton code)"
proof -
  have a: "0 \<le> to_int (SqueezeBits3 v)" for v
    by (rule to_int_nonneg [OF Squeeze_le]) simp
  have "code AND 1 \<le> 1" by (rule word_and_le1)
  then have "0 \<le> to_int (code AND 1)"
    by (rule to_int_nonneg) simp
  with a show ?thesis by (simp add: nonneg4_def DecodeMorton_def)
qed

lemma nonneg4_set: "nonneg4 v \<Longrightarrow> 0 \<le> x \<Longrightarrow> nonneg4 (ivec4_set v j x)"
  by (cases v) (simp add: nonneg4_def)

lemma ivec4_at_set: "ivec4_at (ivec4_set v j x) j = x"
  by (cases v) simp

lemma nonneg4_at: "nonneg4 v \<Longrightarrow> 0 \<le> ivec4_at v j"
  by (cases v) (simp add: nonneg4_def)

lemma nonneg4_leadIndex: "nonneg4 v \<Longrightarrow> nonneg4 (leadIndex_of v)"
  by (cases v) (simp add: nonneg4_def leadIndex_of_def)

lemma gridVerts_at_nonneg: "nonneg4 v \<Longrightarrow> gridVerts_at h v \<noteq> Inl NegativeCoordinate"
  by (auto simp: gridVerts_at_def nonneg4_def split: option.splits)

lemma bindE_not: "m \<noteq> Inl e \<Longrightarrow> (\<And>a. f a \<noteq> Inl e) \<Longrightarrow> bindE m f \<noteq> Inl e"
  by (cases m) (simp_all add: bindE_def)

lemma for_each_not: "(\<And>i s. body i s \<noteq> Inl e) \<Longrightarrow> for_each body is s \<noteq> Inl e"
proof (induction "is" arbitrary: s)
  case Nil
  then show ?case by simp
next
  case (Cons i "is")
  show ?case
  proof (cases "body i s")
    case (Inl e')
    with Cons.prems [of i s] show ?thesis by auto
  next
    case (Inr s')
    with Cons.IH [OF Cons.prems, of s'] show ?thesis by simp
  qed
qed

lemma CreateTri_not: "CreateTri tri edges st \<noteq> Inl NegativeCoordinate"
  by (simp add: CreateTri_def Let_def)

lemma CreateTris_not: "CreateTris tet edges st \<noteq> Inl NegativeCoordinate"
  unfolding CreateTris_def Let_def
  by (intro bindE_not CreateTri_not)

lemma nextVert_lead_not:
  assumes "nonneg4 leadIndex"
  shows "nextVert_lead h leadIndex i \<noteq> Inl NegativeCoordinate"
proof -
  define x where "x = ivec4_at leadIndex (Prev3 i) - 1"
  show ?thesis
  proof (cases "x < 0")
    case True
    then show ?thesis by (simp add: nextVert_lead_def Let_def x_def ivec4_at_set)
  next
    case False
    then have "nonneg4 (ivec4_set leadIndex (Prev3 i) x)"
      using assms by (intro nonneg4_set) simp_all
    then show ?thesis
      using False gridVerts_at_nonneg [of "ivec4_set leadIndex (Prev3 i) x" h]
      by (simp add: nextVert_lead_def Let_def x_def [symmetric] ivec4_at_set)
  qed
qed

lemma BuildTris_axis_not:
  assumes "nonneg4 baseIndex" "nonneg4 leadIndex"
  shows "BuildTris_axis h base baseIndex leadIndex i s \<noteq> Inl NegativeCoordinate"
proof -
  obtain thisVert tet st where s: "s = (thisVert, tet, st)" by (cases s)
  have n: "nonneg4 (ivec4_set baseIndex (Next3 i) (ivec4_at baseIndex (Next3 i) + 1))"
    using assms(1) nonneg4_at [OF assms(1), of "Next3 i"] by (intro nonneg4_set) simp_all
  show ?thesis
    unfolding BuildTris_axis_def s prod.case Let_def
    by (intro bindE_not nextVert_lead_not assms CreateTris_not gridVerts_at_nonneg n) simp
qed

text \<open>
  Claim C9: when the decrement of coordinate \<open>Prev3 i\<close> of \<open>leadIndex\<close> gives a negative
  component, the default record is used and no lookup is made; and no call of the triangle
  pass, on any table, slot and memory, invokes \<^verbatim>\<open>MortonCode\<close> with a negative component.
\<close>

theorem BuildTris_no_negative_MortonCode:
  "(ivec4_at leadIndex (Prev3 i) - 1 < 0 \<longrightarrow> nextVert_lead h leadIndex i = Inr GridVert_default) \<and>
   BuildTris_call h idx st \<noteq> Inl NegativeCoordinate"
proof
  show "ivec4_at leadIndex (Prev3 i) - 1 < 0 \<longrightarrow> nextVert_lead h leadIndex i = Inr GridVert_default"
    by (simp add: nextVert_lead_def Let_def ivec4_at_set)
  define baseIndex where "baseIndex = DecodeMorton (key (At h idx))"
  have b: "nonneg4 baseIndex" unfolding baseIndex_def by (rule DecodeMorton_nonneg)
  have l: "nonneg4 (leadIndex_of baseIndex)" using b by (rule nonneg4_leadIndex)
  have t: "nonneg4 (ivec4_set baseIndex 0 (ivec4_at baseIndex 0 + 1))"
    using b nonneg4_at [OF b, of 0] by (intro nonneg4_set) simp_all
  show "BuildTris_call h idx st \<noteq> Inl NegativeCoordinate"
  proof (cases "key (At h idx) = kOpen")
    case True
    then show ?thesis by (simp add: BuildTris_call_def Let_def)
  next
    case False
    have "bindE (gridVerts_at h (ivec4_set baseIndex 0 (ivec4_at baseIndex 0 + 1)))
        (\<lambda>thisVert. bindE (for_each (BuildTris_axis h (At h idx) baseIndex (leadIndex_of baseIndex))
             [0, 1, 2]
             (thisVert, ivec4_set (NeighborInside (At h idx) 0, Inside (At h idx), - 2, - 2) 2
                (NeighborInside (At h idx) 1), st))
           (\<lambda>(thisVert, tet, st). Inr st)) \<noteq> Inl NegativeCoordinate"
      by (intro bindE_not gridVerts_at_nonneg t for_each_not BuildTris_axis_not b l) auto
    then show ?thesis
      using False by (simp add: BuildTris_call_def Let_def baseIndex_def)
  qed
qed

text \<open>The lead index \<open>(3, 4, 0, 1)\<close> at axis 0, whose \<open>z\<close> is decremented, and the call for slot 1
  of a table of capacity 4.\<close>

theorem BuildTris_no_negative_MortonCode_witness:
  "nextVert_lead \<lparr>step = 127, table = [GridVert_default, example_vert 5, GridVert_default,
      GridVert_default], used = 1\<rparr> (3, 4, 0, 1) 0 = Inr GridVert_default \<and>
   BuildTris_call \<lparr>step = 127, table = [GridVert_default, example_vert 5, GridVert_default,
      GridVert_default], used = 1\<rparr> 1 \<lparr>triVerts = replicate 12 (0, 0, 0), triIndex = 0\<rparr> \<noteq>
     Inl NegativeCoordinate"
  using BuildTris_no_negative_MortonCode [of "(3, 4, 0, 1)" 0
      "\<lparr>step = 127, table = [GridVert_default, example_vert 5, GridVert_default,
      GridVert_default], used = 1\<rparr>" 1 "\<lparr>triVerts = replicate 12 (0, 0, 0), triIndex = 0\<rparr>"]
  by (simp add: Prev3_def)

subsection \<open>The driver\<close>

text \<open>The bit length on numerals, and the bounds that determine it.\<close>

lemma bit_length_0: "bit_length 0 = 0" by (simp add: bit_length.simps)
lemma bit_length_1: "bit_length 1 = 1" by (simp add: bit_length.simps)
lemma bit_length_Suc_0: "bit_length (Suc 0) = 1" by (simp add: bit_length.simps)
lemma bit_length_Bit0: "bit_length (numeral (Num.Bit0 n)) = Suc (bit_length (numeral n))"
  by (subst bit_length.simps) simp
lemma bit_length_Bit1: "bit_length (numeral (Num.Bit1 n)) = Suc (bit_length (numeral n))"
  by (subst bit_length.simps) simp
lemmas bit_length_numeral = bit_length_0 bit_length_1 bit_length_Suc_0 bit_length_Bit0 bit_length_Bit1

lemma bit_length_bounds: "0 < n \<Longrightarrow> 2 ^ (bit_length n - 1) \<le> n \<and> n < 2 ^ bit_length n"
proof (induction n rule: bit_length.induct)
  case (1 n)
  show ?case
  proof (cases "n = 1")
    case True
    then show ?thesis by (simp add: bit_length_Suc_0)
  next
    case False
    with 1(2) have h: "0 < n div 2" by simp
    define b where "b = bit_length (n div 2)"
    from 1(1) [OF _ h] 1(2) have lo: "2 ^ (b - 1) \<le> n div 2" and hi: "n div 2 < 2 ^ b"
      by (simp_all add: b_def)
    have b0: "0 < b"
    proof (rule ccontr)
      assume "\<not> 0 < b"
      with hi h show False by simp
    qed
    have bl: "bit_length n = Suc b"
      using 1(2) by (subst bit_length.simps) (simp add: b_def)
    have "(2::nat) ^ b = 2 * 2 ^ (b - 1)" using b0 by (cases b) simp_all
    with lo have 2: "2 ^ b \<le> n" by simp
    from hi have "n < 2 * 2 ^ b" by simp
    with 2 show ?thesis by (simp add: bl)
  qed
qed

lemma bit_length_eq:
  assumes "2 ^ k \<le> n" "n < 2 ^ Suc k"
  shows "bit_length n = Suc k"
proof -
  have n: "0 < n" using assms(1) by (cases "n = 0") simp_all
  from bit_length_bounds [OF n] have lo: "2 ^ (bit_length n - 1) \<le> n" and hi: "n < 2 ^ bit_length n"
    by simp_all
  from assms(1) hi have H: "(2::nat) ^ k < 2 ^ bit_length n" by (rule le_less_trans)
  have 1: "k < bit_length n" by (rule power_less_imp_less_exp [OF _ H]) simp
  from lo assms(2) have L: "(2::nat) ^ (bit_length n - 1) < 2 ^ Suc k" by (rule le_less_trans)
  have "bit_length n - 1 < Suc k" by (rule power_less_imp_less_exp [OF _ L]) simp
  with 1 show ?thesis by simp
qed

lemma float_exponent_bounds:
  assumes "x \<noteq> 0"
  shows "2 powi float_exponent x \<le> \<bar>x\<bar> \<and> \<bar>x\<bar> < 2 powi (float_exponent x + 1)"
proof (cases "1 \<le> \<bar>x\<bar>")
  case True
  define n where "n = nat \<lfloor>\<bar>x\<bar>\<rfloor>"
  have n: "0 < n" using True by (simp add: n_def)
  have nx: "real n \<le> \<bar>x\<bar>" "\<bar>x\<bar> < real n + 1"
    using True by (simp_all add: n_def)
  from bit_length_bounds [OF n] have lo: "2 ^ (bit_length n - 1) \<le> n" and hi: "n < 2 ^ bit_length n"
    by simp_all
  have b0: "0 < bit_length n"
  proof (rule ccontr)
    assume "\<not> 0 < bit_length n"
    with hi n show False by simp
  qed
  have e: "float_exponent x = int (bit_length n) - 1"
    using True by (simp add: float_exponent_def n_def)
  have "int (bit_length n) - 1 = int (bit_length n - 1)" using b0 by simp
  then have p1: "(2::real) powi float_exponent x = 2 ^ (bit_length n - 1)"
    unfolding e by (simp only: power_int_of_nat)
  have p2: "(2::real) powi (float_exponent x + 1) = 2 ^ bit_length n"
    unfolding e by simp
  have "(2::real) ^ (bit_length n - 1) \<le> real n" using lo
    by (metis of_nat_le_iff of_nat_numeral of_nat_power)
  with nx have 1: "(2::real) ^ (bit_length n - 1) \<le> \<bar>x\<bar>" by linarith
  from hi have "n + 1 \<le> 2 ^ bit_length n" by simp
  then have "real (n + 1) \<le> 2 ^ bit_length n"
    by (metis of_nat_le_iff of_nat_numeral of_nat_power)
  with nx have 2: "\<bar>x\<bar> < (2::real) ^ bit_length n" by simp
  show ?thesis unfolding p1 p2 using 1 2 by simp
next
  case False
  define y where "y = 1 / \<bar>x\<bar>"
  have x: "0 < \<bar>x\<bar>" "\<bar>x\<bar> < 1" using assms False by simp_all
  then have y1: "1 < y" by (simp add: y_def)
  define c where "c = \<lceil>y\<rceil>"
  define m where "m = nat c - 1"
  have c2: "2 \<le> c" unfolding c_def using y1 by linarith
  then have m: "0 < m" unfolding m_def by linarith
  have "int m = c - 1" using c2 unfolding m_def by linarith
  then have "real_of_int (int m) = real_of_int (c - 1)" by simp
  then have rm: "real m = real_of_int c - 1" by simp
  have my: "real m < y" "y \<le> real m + 1"
    unfolding rm c_def using ceiling_correct [of y] by simp_all
  from bit_length_bounds [OF m] have lo: "2 ^ (bit_length m - 1) \<le> m" and hi: "m < 2 ^ bit_length m"
    by simp_all
  define k where "k = bit_length m"
  have k0: "0 < k"
  proof (rule ccontr)
    assume "\<not> 0 < k"
    with hi m show False by (simp add: k_def)
  qed
  have e: "float_exponent x = - int k"
    using False by (simp add: float_exponent_def m_def c_def y_def k_def)
  have "(2::real) ^ (k - 1) \<le> real m" using lo unfolding k_def
    by (metis of_nat_le_iff of_nat_numeral of_nat_power)
  with my have 1: "(2::real) ^ (k - 1) < y" by linarith
  from hi have "m + 1 \<le> 2 ^ k" by (simp add: k_def)
  then have "real (m + 1) \<le> 2 ^ k"
    by (metis of_nat_le_iff of_nat_numeral of_nat_power)
  with my have 2: "y \<le> (2::real) ^ k" by simp
  have a: "2 powi (- int k) \<le> \<bar>x\<bar>"
  proof -
    from 2 have "1 / \<bar>x\<bar> \<le> 2 ^ k" by (simp add: y_def)
    then have "1 \<le> 2 ^ k * \<bar>x\<bar>" using x by (simp add: field_simps)
    then have "1 / 2 ^ k \<le> \<bar>x\<bar>" by (simp add: field_simps)
    then show ?thesis by (simp add: power_int_minus field_simps)
  qed
  have b: "\<bar>x\<bar> < 2 powi (- int k + 1)"
  proof -
    from 1 have "2 ^ (k - 1) < 1 / \<bar>x\<bar>" by (simp add: y_def)
    then have "2 ^ (k - 1) * \<bar>x\<bar> < 1" using x by (simp add: field_simps)
    then have "\<bar>x\<bar> < 1 / 2 ^ (k - 1)" by (simp add: field_simps)
    then have "\<bar>x\<bar> < 2 powi (- int (k - 1))" by (simp add: power_int_minus field_simps)
    moreover have "- int k + 1 = - int (k - 1)" using k0 by simp
    ultimately show ?thesis by (simp only:)
  qed
  show ?thesis unfolding e using a b by simp
qed

lemma round_even_nonneg: "0 \<le> r \<Longrightarrow> 0 \<le> round_even r"
  by (auto simp: round_even_def Let_def)

lemma float_round_nonneg: "0 \<le> x \<Longrightarrow> 0 \<le> float_round x"
  by (simp add: float_round_def Let_def round_even_nonneg)

lemma float_round_examples: "float_round (3 / 2) = 3 / 2" "float_round 2 = 2"
  by (simp_all add: float_round_def float_exponent_def round_even_def bit_length_numeral Let_def)

lemma float_div_examples: "float_div 3 2 = Some (3 / 2)" "float_div 4 2 = Some 2"
  by (simp_all add: float_div_def float_round_examples Let_def)

lemma float_to_int_examples: "float_to_int (3 / 2) = Some 1" "float_to_int 2 = Some 2"
  by (simp_all add: float_to_int_def float_trunc_def Let_def)

text \<open>
  Claim C6, as stated, fails: for a box of size \<open>(3, 4, 4)\<close> and an edge length of 2 the
  ceiling of the quotient is 2 in each axis; the driver's grid size is \<open>(1, 2, 2)\<close>, and the grid
  size that it hands to the vertex pass, one more in each axis, is \<open>(2, 3, 3)\<close>.
\<close>

theorem LevelSet_gridSize_not_ceil:
  "spec_gridSize (3, 4, 4) 2 = (2, 2, 2) \<and>
   LevelSet_gridSize (3, 4, 4) 2 = Some (1, 2, 2) \<and>
   ivec3_plus (1, 2, 2) 1 = (2, 3, 3)"
  by (simp add: LevelSet_gridSize_def spec_gridSize_def float_div_examples float_to_int_examples)

text \<open>
  Claim C6, amended: for a box of non-negative size and a positive edge length the driver
  computes the grid size of each axis as the floor of the \<^verbatim>\<open>float\<close> quotient of the box size and
  the edge length, that is, of the exact quotient rounded to the nearest \<^verbatim>\<open>float\<close>, provided
  that this quotient is below \<open>2\<^sup>3\<^sup>1\<close>.
\<close>

theorem LevelSet_gridSize_floor:
  assumes "0 \<le> a" "0 \<le> b" "0 \<le> c" "0 < edgeLength"
    and "float_round (a / edgeLength) < 2 ^ 31" "float_round (b / edgeLength) < 2 ^ 31"
      "float_round (c / edgeLength) < 2 ^ 31"
  shows "LevelSet_gridSize (a, b, c) edgeLength =
           Some (\<lfloor>float_round (a / edgeLength)\<rfloor>, \<lfloor>float_round (b / edgeLength)\<rfloor>,
                 \<lfloor>float_round (c / edgeLength)\<rfloor>)"
proof -
  have q: "Option.bind (float_div x edgeLength) float_to_int = Some \<lfloor>float_round (x / edgeLength)\<rfloor>"
    if "0 \<le> x" "float_round (x / edgeLength) < 2 ^ 31" for x
  proof -
    define q where "q = float_round (x / edgeLength)"
    have q0: "0 \<le> q" unfolding q_def using that(1) assms(4) by (intro float_round_nonneg) simp
    have q1: "q < 2 ^ 31" using that(2) by (simp add: q_def)
    then have "\<bar>q\<bar> < 2 ^ 128" using q0 by simp
    then have d: "float_div x edgeLength = Some q"
      using assms(4) by (simp add: float_div_def q_def [symmetric] Let_def)
    have "0 \<le> \<lfloor>q\<rfloor>" "\<lfloor>q\<rfloor> < 2 ^ 31" using q0 q1 by (simp_all add: floor_less_iff)
    then have "float_to_int q = Some \<lfloor>q\<rfloor>"
      using q0 by (simp add: float_to_int_def float_trunc_def Let_def)
    with d show ?thesis by (simp add: q_def)
  qed
  show ?thesis
    by (simp add: LevelSet_gridSize_def q [OF assms(1) assms(5)] q [OF assms(2) assms(6)]
        q [OF assms(3) assms(7)])
qed

text \<open>
  The box of size \<open>(2, 3, 1)\<close> at the edge length \<^verbatim>\<open>0.2f\<close>, the \<^verbatim>\<open>float\<close> nearest to one fifth: the
  exact quotients are just below 10, 15 and 5, and round to these numbers.
\<close>

theorem LevelSet_gridSize_floor_witness:
  "LevelSet_gridSize (2, 3, 1) (13421773 / 67108864) = Some (10, 15, 5) \<and>
   (\<lfloor>2 / (13421773 / 67108864 :: real)\<rfloor>, \<lfloor>3 / (13421773 / 67108864 :: real)\<rfloor>,
    \<lfloor>1 / (13421773 / 67108864 :: real)\<rfloor>) = (9, 14, 4)"
  using LevelSet_gridSize_floor [of 2 3 1 "13421773 / 67108864"]
  by (simp add: float_round_def float_exponent_def round_even_def bit_length_numeral Let_def)

subsection \<open>The driver on a grid of 4095 cells\<close>

lemma gridSize_4095:
  "LevelSet_gridSize (Box_Size \<lparr>box_min = (0, 0, 0), box_max = (4095, 4095, 4095)\<rparr>) 1 =
     Some (4095, 4095, 4095)"
proof -
  have "float_round 4095 = 4095"
    by (simp add: float_round_def float_exponent_def round_even_def bit_length_numeral Let_def)
  then have "float_div 4095 1 = Some 4095" by (simp add: float_div_def Let_def)
  moreover have "float_to_int 4095 = Some 4095"
    by (simp add: float_to_int_def float_trunc_def Let_def)
  ultimately show ?thesis by (simp add: LevelSet_gridSize_def Box_Size_def)
qed

lemma maxMorton_4095: "LevelSet_maxMorton (4095, 4095, 4095) = 962072674305"
  by (simp add: LevelSet_maxMorton_def SpreadBits3_def to_Uint64_def)

lemma powr_4095_bounds:
  "67108864 \<le> (962072674305::real) powr (667 / 1000)"
  "(962072674305::real) powr (667 / 1000) \<le> 107000000"
proof -
  have "((2::real) powr 39) powr (2 / 3) = 2 powr (39 * (2 / 3))" by (rule powr_powr)
  then have "(549755813888::real) powr (2 / 3) = 2 powr 26" by simp
  then have "(67108864::real) = 549755813888 powr (2 / 3)" by simp
  also have "\<dots> \<le> 549755813888 powr (667 / 1000)" by (rule powr_mono) simp_all
  also have "\<dots> \<le> 962072674305 powr (667 / 1000)" by (rule powr_mono2) simp_all
  finally show "67108864 \<le> (962072674305::real) powr (667 / 1000)" .
  define c :: real where "c = 107 / 100"
  have c: "0 < c" "c = 1 + 7 / 100" by (simp_all add: c_def)
  have "1 + real 250 * (7 / 100) \<le> (1 + 7 / 100) ^ 250"
    by (rule Bernoulli_inequality) simp
  then have "1 + real 250 * (7 / 100) \<le> c ^ 250" by (simp only: c(2))
  moreover have "(10::real) \<le> 1 + real 250 * (7 / 100)" by simp
  ultimately have b: "10 \<le> c ^ 250" by (rule order_trans [rotated])
  have p: "c ^ 250 = c powr 250" using c(1) by (simp only: powr_realpow [OF c(1), symmetric] of_nat_numeral)
  have "(10::real) powr (1 / 250) \<le> (c powr 250) powr (1 / 250)"
    using b unfolding p by (intro powr_mono2) simp_all
  also have "\<dots> = c powr (250 * (1 / 250))" by (rule powr_powr)
  also have "\<dots> = c" using c(1) by simp
  finally have r: "(10::real) powr (1 / 250) \<le> 107 / 100" by (simp only: c_def)
  have "(962072674305::real) powr (667 / 1000) \<le> 1000000000000 powr (667 / 1000)"
    by (rule powr_mono2) simp_all
  also have "(1000000000000::real) powr (667 / 1000) = (10 powr 12) powr (667 / 1000)" by simp
  also have "\<dots> = 10 powr (12 * (667 / 1000))" by (rule powr_powr)
  also have "\<dots> = 10 powr (8 + 1 / 250)" by simp
  also have "\<dots> = 10 powr 8 * 10 powr (1 / 250)" by (rule powr_add)
  also have "\<dots> \<le> 10 powr 8 * (107 / 100)" using r by (intro mult_left_mono) simp_all
  also have "\<dots> = 107000000" by simp
  finally show "(962072674305::real) powr (667 / 1000) \<le> 107000000" .
qed

lemma tableSize_4095:
  "536870912 < LevelSet_tableSize 962072674305 \<and> LevelSet_tableSize 962072674305 \<le> 1073741824"
proof -
  define F where "F = float_trunc (10 * (962072674305::real) powr (667 / 1000))"
  have "671088640 \<le> 10 * (962072674305::real) powr (667 / 1000)"
    "10 * (962072674305::real) powr (667 / 1000) \<le> 1070000000"
    using powr_4095_bounds by simp_all
  then have F: "671088640 \<le> F" "F \<le> 1070000000"
    by (simp_all add: F_def float_trunc_def le_floor_iff floor_le_iff)
  then have u: "uint (word_of_int F :: Uint64) = F"
    by (simp add: uint_word_of_int take_bit_int_eq_self)
  with F have lt: "(word_of_int F :: Uint64) < 1924145348610" "(word_of_int F :: Uint64) < 2 ^ 31"
    by (simp_all add: word_less_def)
  then have "glm_min64 (2 * 962072674305) (to_Uint64 F) = word_of_int F"
    by (simp add: glm_min64_def to_Uint64_def)
  moreover have "to_int (word_of_int F :: Uint64) = F"
    using to_int_small [OF lt(2)] u by simp
  ultimately have "LevelSet_tableSize 962072674305 = F"
    by (simp add: LevelSet_tableSize_def F_def)
  with F show ?thesis by simp
qed

lemma fresh_state_overflow:
  assumes "536870912 < t" "t \<le> 1073741824"
  shows "fresh_state t = Inl IntOverflow"
proof -
  have "uint (word_of_int t :: uint32) = t"
    using assms by (simp add: uint_word_of_int take_bit_int_eq_self)
  then have "unat (word_of_int t :: uint32) = nat t" by (simp add: unat_eq_nat_uint)
  moreover have "bit_length (nat t - 1) = Suc 29"
    using assms by (intro bit_length_eq) simp_all
  ultimately show ?thesis
    by (simp add: fresh_state_def HashTable_def Size_def Let_def)
qed

text \<open>
  Claim C8 fails on a grid of 4095 cells per axis: \<^verbatim>\<open>maxMorton\<close> is \<open>7 * 2\<^sup>3\<^sup>7 + 1\<close>, the requested
  table size lies between \<open>2\<^sup>2\<^sup>9\<close> and \<open>2\<^sup>3\<^sup>0\<close>, and the table has \<open>2\<^sup>3\<^sup>0\<close> slots. Seven times this
  capacity is no \<^verbatim>\<open>int\<close>, so that the product \<^verbatim>\<open>gridVerts.Size() * 7\<close> overflows and the driver
  has no vertex buffer of seven entries per slot for the vertex pass to write to.
\<close>

theorem LevelSet_vertex_buffer_overflow:

  "LevelSet cube_sdf \<lparr>box_min = (0, 0, 0), box_max = (4095, 4095, 4095)\<rparr> 1 0 =
     Some (Inl IntOverflow)"
proof -
  have "LevelSet_loop p 962072674305 (LevelSet_tableSize 962072674305) = Some (Inl IntOverflow)" for p
    using tableSize_4095 by (subst LevelSet_loop.simps) (simp add: fresh_state_overflow)
  then show ?thesis
    by (simp add: LevelSet_def Let_def gridSize_4095 maxMorton_4095)
qed

subsection \<open>The driver on a grid beyond 21 bits\<close>

lemmas eval_defs = ComputeVerts_call_def Full_def Size_def DecodeMorton_def SqueezeBits3_def to_int_def
  BoundedSDF_def large_params_def Position_def cube_sdf_def glm_min_def Let_def
  ComputeVerts_edge_def neighborIndex_def Neighbors_def neighbors_def Insert_def Insert_loop.simps
  to_Uint64_def GridVert_default_def kOpen_def

lemma large_codes: "map word_of_nat [0..<unat (15 + 1 :: Uint64)] =
   [0, 1, 2, 3, 4, 5, 6, 7, 8, 9, 10, 11, 12, 13, 14, 15 :: Uint64]"
  by (simp add: upt_rec)

lemma large_vertex_pass: "vertex_pass large_params 15
    \<lparr>vertPos = replicate 224 (0, 0, 0), vertIndex = 0,
     gridVerts = \<lparr>step = 127, table = replicate 32 GridVert_default, used = 0\<rparr>\<rparr> =
   Inr \<lparr>vertPos = (replicate 224 (0, 0, 0))[0 := (5 / 4, 1 / 4, 1 / 4),
       1 := (5 / 4, 3 / 4, 1 / 4), 2 := (5 / 4, 1 / 4, 3 / 4), 3 := (5 / 4, 1 / 2, 1 / 2)],
     vertIndex = 4,
     gridVerts = \<lparr>step = 127, table = (replicate 32 GridVert_default)
        [3 := \<lparr>key = 3, distance = Some (- (1 / 4)), edgeVerts = [0, -1, -1, -1, -1, -1, -1]\<rparr>,
         7 := \<lparr>key = 7, distance = Some (- (1 / 4)), edgeVerts = [-1, -1, -1, -1, -1, 1, -1]\<rparr>,
         11 := \<lparr>key = 11, distance = Some (- (1 / 4)), edgeVerts = [-1, -1, -1, -1, -1, -1, 2]\<rparr>,
         14 := \<lparr>key = 14, distance = Some (- (3 / 4)), edgeVerts = [-1, 3, -1, -1, -1, -1, -1]\<rparr>],
        used = 4\<rparr>\<rparr>"
  unfolding vertex_pass_def large_codes
  by (simp add: eval_defs)

lemmas tri_defs = triangle_pass_def BuildTris_call_def At_def BuildTris_axis_def nextVert_lead_def
  gridVerts_at_def Lookup_def Lookup_loop.simps SpreadBits3_def CreateTris_def CreateTri_def
  tetMask_def TetTri0_def TetTri1_def tetTri0_def tetTri1_def Inside_def NeighborInside_def
  leadIndex_of_def Next3_def Prev3_def bindE_def DecodeMorton_def SqueezeBits3_def to_int_def
  to_Uint64_def GridVert_default_def kOpen_def Let_def Size_def

lemma large_slots: "[0..<length ((replicate 32 (d::GridVert))[3 := a, 7 := b, 11 := c, 14 := e])] =
   [0, 1, 2, 3, 4, 5, 6, 7, 8, 9, 10, 11, 12, 13, 14, 15, 16, 17, 18, 19, 20, 21, 22, 23, 24, 25,
    26, 27, 28, 29, 30, 31]"
  by (simp add: upt_rec)

lemma large_triangle_pass: "triangle_pass \<lparr>step = 127, table = (replicate 32 GridVert_default)
        [3 := \<lparr>key = 3, distance = Some (- (1 / 4)), edgeVerts = [0, -1, -1, -1, -1, -1, -1]\<rparr>,
         7 := \<lparr>key = 7, distance = Some (- (1 / 4)), edgeVerts = [-1, -1, -1, -1, -1, 1, -1]\<rparr>,
         11 := \<lparr>key = 11, distance = Some (- (1 / 4)), edgeVerts = [-1, -1, -1, -1, -1, -1, 2]\<rparr>,
         14 := \<lparr>key = 14, distance = Some (- (3 / 4)), edgeVerts = [-1, 3, -1, -1, -1, -1, -1]\<rparr>],
        used = 4\<rparr> \<lparr>triVerts = replicate 48 (0, 0, 0), triIndex = 0\<rparr> =
    Inr \<lparr>triVerts = (replicate 48 (0, 0, 0))[0 := (0, - 1, - 1), 1 := (0, 1, - 1), 2 := (0, 3, 1),
         3 := (0, 2, 3), 4 := (0, - 1, 2), 5 := (0, - 1, - 1), 6 := (- 1, - 1, 1),
         7 := (1, - 1, - 1), 8 := (- 1, - 1, 2), 9 := (2, - 1, - 1), 10 := (3, - 1, 1),
         11 := (2, - 1, 3)], triIndex = 12\<rparr>"
  unfolding triangle_pass_def HashTableD.simps large_slots
  by (simp add: tri_defs)

lemma powr_15_bounds: "3 \<le> (15::real) powr (667 / 1000)" "(15::real) powr (667 / 1000) \<le> 15"
proof -
  have "((3::real) powr 3) powr (1 / 3) = 3 powr (3 * (1 / 3))" by (rule powr_powr)
  then have "(3::real) = 27 powr (1 / 3)" by simp
  also have "\<dots> \<le> 225 powr (1 / 3)" by (rule powr_mono2) simp_all
  also have "\<dots> = 15 powr (2 / 3)"
  proof -
    have "((15::real) powr 2) powr (1 / 3) = 15 powr (2 * (1 / 3))" by (rule powr_powr)
    then show ?thesis by simp
  qed
  also have "\<dots> \<le> 15 powr (667 / 1000)" by (rule powr_mono) simp_all
  finally show "3 \<le> (15::real) powr (667 / 1000)" .
  have "(15::real) powr (667 / 1000) \<le> 15 powr 1" by (rule powr_mono) simp_all
  then show "(15::real) powr (667 / 1000) \<le> 15" by simp
qed

lemma tableSize_15: "LevelSet_tableSize 15 = 30"
proof -
  define F where "F = float_trunc (10 * (15::real) powr (667 / 1000))"
  have "30 \<le> 10 * (15::real) powr (667 / 1000)" "10 * (15::real) powr (667 / 1000) \<le> 150"
    using powr_15_bounds by simp_all
  then have F: "30 \<le> F" "F \<le> 150"
    by (simp_all add: F_def float_trunc_def le_floor_iff floor_le_iff)
  then have "uint (word_of_int F :: Uint64) = F"
    by (simp add: uint_word_of_int take_bit_int_eq_self)
  with F have "\<not> (word_of_int F :: Uint64) < 30"
    by (simp add: word_less_def)
  then have "glm_min64 (2 * 15) (to_Uint64 F) = 30"
    by (simp add: glm_min64_def to_Uint64_def)
  then show ?thesis
    by (simp add: LevelSet_tableSize_def F_def to_int_def)
qed

lemma large_maxMorton: "LevelSet_maxMorton (2097152, 2097152, 2097152) = 15"
  by (simp add: LevelSet_maxMorton_def SpreadBits3_def to_Uint64_def)

lemma take_4: "take 4 ((replicate 224 z)[0 := a, Suc 0 := b, 2 := c, 3 := d]) = [a, b, c, d]"
  by (simp add: numeral_eq_Suc)

lemma take_12: "take 12 ((replicate 48 z)[0 := a, Suc 0 := b, 2 := c, 3 := d, 4 := e, 5 := f, 6 := g,
    7 := h, 8 := i, 9 := j, 10 := k, 11 := l]) = [a, b, c, d, e, f, g, h, i, j, k, l]"
  by (simp add: numeral_eq_Suc)

lemma large_loop: "LevelSet_loop large_params 15 30 =
   Some (Inr \<lparr>vertPos = [(5 / 4, 1 / 4, 1 / 4), (5 / 4, 3 / 4, 1 / 4),
       (5 / 4, 1 / 4, 3 / 4), (5 / 4, 1 / 2, 1 / 2)],
     vertIndex = 4,
     gridVerts = \<lparr>step = 127, table = (replicate 32 GridVert_default)
        [3 := \<lparr>key = 3, distance = Some (- (1 / 4)), edgeVerts = [0, -1, -1, -1, -1, -1, -1]\<rparr>,
         7 := \<lparr>key = 7, distance = Some (- (1 / 4)), edgeVerts = [-1, -1, -1, -1, -1, 1, -1]\<rparr>,
         11 := \<lparr>key = 11, distance = Some (- (1 / 4)), edgeVerts = [-1, -1, -1, -1, -1, -1, 2]\<rparr>,
         14 := \<lparr>key = 14, distance = Some (- (3 / 4)), edgeVerts = [-1, 3, -1, -1, -1, -1, -1]\<rparr>],
        used = 4\<rparr>\<rparr>)"
  by (subst LevelSet_loop.simps)
    (simp add: fresh_state_30 large_vertex_pass Full_def Size_def take_4)

theorem LevelSet_large_grid:
  "LevelSet cube_sdf \<lparr>box_min = (0, 0, 0), box_max = (2097152, 2097152, 2097152)\<rparr> 1 0 =
     Some (Inr ([(5 / 4, 1 / 4, 1 / 4), (5 / 4, 3 / 4, 1 / 4), (5 / 4, 1 / 4, 3 / 4),
                 (5 / 4, 1 / 2, 1 / 2)],
                [(0, - 1, - 1), (0, 1, - 1), (0, 3, 1), (0, 2, 3), (0, - 1, 2), (0, - 1, - 1),
                 (- 1, - 1, 1), (1, - 1, - 1), (- 1, - 1, 2), (2, - 1, - 1), (3, - 1, 1),
                 (2, - 1, 3)]))"
proof -
  have "float_round 2097152 = 2097152"
    by (simp add: float_round_def float_exponent_def round_even_def bit_length_numeral Let_def)
  then have "float_div 2097152 1 = Some 2097152" by (simp add: float_div_def Let_def)
  moreover have "float_to_int 2097152 = Some 2097152"
    by (simp add: float_to_int_def float_trunc_def Let_def)
  ultimately have gs: "LevelSet_gridSize (Box_Size \<lparr>box_min = (0, 0, 0),
      box_max = (2097152, 2097152, 2097152)\<rparr>) 1 = Some (2097152, 2097152, 2097152)"
    by (simp add: LevelSet_gridSize_def Box_Size_def)
  have p: "\<lparr>sdf = cube_sdf, origin = box_min \<lparr>box_min = (0, 0, 0),
        box_max = (2097152, 2097152, 2097152)\<rparr>,
      gridSize = ivec3_plus (2097152, 2097152, 2097152) 1,
      spacing = vec3_divide (Box_Size \<lparr>box_min = (0, 0, 0),
        box_max = (2097152, 2097152, 2097152)\<rparr>) (vec3_of_ivec3 (2097152, 2097152, 2097152)),
      level = 0\<rparr> = large_params"
    by (simp add: large_params_def Box_Size_def)
  show ?thesis
    unfolding LevelSet_def Let_def gs option.case p large_maxMorton tableSize_15 large_loop
    by (simp add: large_triangle_pass take_12)
qed

text \<open>
  Claim C1 fails on a grid of \<open>2\<^sup>2\<^sup>1\<close> cells per axis: the Morton codec keeps 21 bits of a
  coordinate, so that \<^verbatim>\<open>maxMorton\<close> is 15 and the vertex pass visits the sixteen grid vertices
  with coordinates 0 and 1 only. For the cube around the grid vertex \<open>(2, 1, 1, 0)\<close> the driver
  returns four vertices and twelve triangles, ten of which name the vertex \<open>- 1\<close>, and four
  triangles share the edge from vertex 0 to \<open>- 1\<close>.
\<close>

theorem LevelSet_large_grid_not_manifold:
  "LevelSet cube_sdf \<lparr>box_min = (0, 0, 0), box_max = (2097152, 2097152, 2097152)\<rparr> 1 0 =
     Some (Inr ([(5 / 4, 1 / 4, 1 / 4), (5 / 4, 3 / 4, 1 / 4), (5 / 4, 1 / 4, 3 / 4),
                 (5 / 4, 1 / 2, 1 / 2)],
                [(0, - 1, - 1), (0, 1, - 1), (0, 3, 1), (0, 2, 3), (0, - 1, 2), (0, - 1, - 1),
                 (- 1, - 1, 1), (1, - 1, - 1), (- 1, - 1, 2), (2, - 1, - 1), (3, - 1, 1),
                 (2, - 1, 3)])) \<and>
   edge_count [(0, - 1, - 1), (0, 1, - 1), (0, 3, 1), (0, 2, 3), (0, - 1, 2), (0, - 1, - 1),
               (- 1, - 1, 1), (1, - 1, - 1), (- 1, - 1, 2), (2, - 1, - 1), (3, - 1, 1),
               (2, - 1, 3)] (0, - 1) = 4"
  using LevelSet_large_grid by (simp add: edge_count_def has_edge_def)

end
